theory Spec2Isabelle
  imports Complex_Main "HOL-Library.Sublist"
begin

section \<open>Conversation state of the chat front end\<close>

text \<open>
  A chat turn is the pair of a user utterance and an assistant utterance; either may be
  Python's \<^verbatim>\<open>None\<close>. The conversation (\<^verbatim>\<open>chatbot\<close>) is the list of
  turns in submission order.
\<close>

type_synonym turn = "string option \<times> string option"
type_synonym conversation = "turn list"

text \<open>
  \<^verbatim>\<open>show_user_input(msg, chatbot)\<close> returns the cleared input box and
  \<^verbatim>\<open>chatbot + [[msg, None]]\<close>.
\<close>

definition show_user_input :: "string \<Rightarrow> conversation \<Rightarrow> string \<times> conversation" where
  "show_user_input msg chatbot = ('''', chatbot @ [(Some msg, None)])"

text \<open>
  \<^verbatim>\<open>undo(chatbot)\<close>: the slice \<^verbatim>\<open>chatbot[:-1]\<close> when the list is not empty.
\<close>

definition undo :: "conversation \<Rightarrow> conversation" where
  "undo chatbot = (if length chatbot > 0 then take (length chatbot - 1) chatbot else chatbot)"

definition clear :: "conversation \<times> string" where
  "clear = ([], '''')"

section \<open>Python values and errors\<close>

text \<open>
  The exceptions the modelled code can raise, and Python's integer \<^verbatim>\<open>%\<close> and
  \<^verbatim>\<open>//\<close>: floor division (as \<open>div\<close> and \<open>mod\<close> on \<open>int\<close>), raising
  \<^verbatim>\<open>ZeroDivisionError\<close> on a zero divisor.
\<close>

datatype py_error =
  ZeroDivisionError | KeyError | AssertionError | ValueError | TypeError | IndexError
  | AttributeError

definition py_mod :: "int \<Rightarrow> int \<Rightarrow> py_error + int" where
  "py_mod a b = (if b = 0 then Inl ZeroDivisionError else Inr (a mod b))"

definition py_floordiv :: "int \<Rightarrow> int \<Rightarrow> py_error + int" where
  "py_floordiv a b = (if b = 0 then Inl ZeroDivisionError else Inr (a div b))"

text \<open>
  A float as far as the code looks at it: finite (its value kept as a rational), an
  infinity or not-a-number. \<^verbatim>\<open>math.isfinite\<close> and \<^verbatim>\<open>torch.isinf\<close> only ask
  which of these it is.
\<close>

datatype pyfloat = Finite rat | PosInf | NegInf | NaN

fun isfinite :: "pyfloat \<Rightarrow> bool" where
  "isfinite (Finite _) = True"
| "isfinite _ = False"

fun isinf :: "pyfloat \<Rightarrow> bool" where
  "isinf PosInf = True"
| "isinf NegInf = True"
| "isinf _ = False"

section \<open>The training driver: \<^verbatim>\<open>train_one_epoch\<close>\<close>

text \<open>
  The fields of \<^verbatim>\<open>args\<close> that the loop reads.
\<close>

record train_args =
  accum_iter :: int
  precision :: string
  clip_grad :: rat
  log_steps :: int
  save_iteration_interval :: int

text \<open>
  The model, the loss scaler and the optimizer are external. What they hand back on one
  step: \<^verbatim>\<open>loss.item()\<close> of the objective loss plus the weighted additional losses,
  and the gradient norm the loss scaler returns (\<^verbatim>\<open>None\<close> or a value).
\<close>

record batch_result =
  loss_value :: pyfloat
  grad_norm :: "pyfloat option"

text \<open>
  The calls to the external collaborators, in the order the loop makes them.
\<close>

datatype event =
    ZeroGrad
  | AdjustLearningRate int
  | Forward int
  | PrintLossStop
  | LossScaler bool "rat option"
  | PrintGradInf
  | UpdateGradNorm
  | Synchronize
  | UpdateMetrics
  | LogMetrics int
  | SaveCheckpoint int
  | SynchronizeBetweenProcesses

datatype outcome = Continue | Returned | SysExit int | Raised py_error

text \<open>
  The within-epoch checkpoint guard (source lines 104--105):
  \<^verbatim>\<open>n_update_per_save = args.save_iteration_interval // accum_iter\<close>, then
  \<^verbatim>\<open>update_grad and ((data_iter_step + 1) // accum_iter) % n_update_per_save == 0\<close>.
  Python's \<^verbatim>\<open>and\<close> does not evaluate its right operand when the left one is false.
\<close>

definition n_update_per_save :: "train_args \<Rightarrow> py_error + int" where
  "n_update_per_save args = py_floordiv (save_iteration_interval args) (accum_iter args)"

definition save_guard :: "train_args \<Rightarrow> int \<Rightarrow> bool \<Rightarrow> py_error + bool" where
  "save_guard args data_iter_step update_grad =
     (case n_update_per_save args of
        Inl e \<Rightarrow> Inl e
      | Inr n \<Rightarrow>
          if update_grad then
            (case py_floordiv (data_iter_step + 1) (accum_iter args) of
               Inl e \<Rightarrow> Inl e
             | Inr q \<Rightarrow> (case py_mod q n of Inl e \<Rightarrow> Inl e | Inr r \<Rightarrow> Inr (r = 0)))
          else Inr False)"

text \<open>
  One iteration of the loop body (source lines 33--110), returning the external calls made
  and how the iteration ends.
\<close>

definition train_step :: "train_args \<Rightarrow> int \<Rightarrow> batch_result \<Rightarrow> event list \<times> outcome" where
  "train_step args data_iter_step b =
     (case py_mod data_iter_step (accum_iter args) of
        Inl e \<Rightarrow> ([], Raised e)
      | Inr r0 \<Rightarrow>
     let ev1 = (if r0 = 0 then [AdjustLearningRate data_iter_step] else []) in
     if precision args \<notin> set [''bf16'', ''fp16'', ''tf32''] then (ev1, Raised KeyError)
     else
     let ev2 = ev1 @ [Forward data_iter_step] in
     if \<not> isfinite (loss_value b) then (ev2 @ [PrintLossStop], SysExit 1)
     else
     (case py_mod (data_iter_step + 1) (accum_iter args) of
        Inl e \<Rightarrow> (ev2, Raised e)
      | Inr r1 \<Rightarrow>
     let update_grad = (r1 = 0);
         ev3 = ev2 @ [LossScaler update_grad
                        (if clip_grad args \<le> 0 then None else Some (clip_grad args))]
     in
     if update_grad \<and> grad_norm b = None then (ev3, Raised AssertionError)
     else
     let ev4 = ev3
           @ (if update_grad
              then [if isinf (the (grad_norm b)) then PrintGradInf else UpdateGradNorm,
                    ZeroGrad]
              else [])
           @ [Synchronize, UpdateMetrics]
     in
     (case py_mod (data_iter_step + 1) (log_steps args) of
        Inl e \<Rightarrow> (ev4, Raised e)
      | Inr r2 \<Rightarrow>
     let ev5 = ev4 @ (if r2 = 0 then [LogMetrics data_iter_step] else []) in
     (case save_guard args data_iter_step update_grad of
        Inl e \<Rightarrow> (ev5, Raised e)
      | Inr save \<Rightarrow>
          (if save then ev5 @ [SaveCheckpoint data_iter_step] else ev5, Continue)))))"

text \<open>
  The \<^verbatim>\<open>for\<close> loop over the data loader, enumerated from \<^verbatim>\<open>start_iter\<close>.
\<close>

fun train_loop :: "train_args \<Rightarrow> int \<Rightarrow> batch_result list \<Rightarrow> event list \<times> outcome" where
  "train_loop args data_iter_step [] = ([], Continue)"
| "train_loop args data_iter_step (b # bs) =
     (case train_step args data_iter_step b of
        (ev, Continue) \<Rightarrow>
          (case train_loop args (data_iter_step + 1) bs of (ev', out) \<Rightarrow> (ev @ ev', out))
      | (ev, out) \<Rightarrow> (ev, out))"

definition train_one_epoch :: "train_args \<Rightarrow> int \<Rightarrow> batch_result list \<Rightarrow> event list \<times> outcome" where
  "train_one_epoch args start_iter data_loader =
     (case train_loop args start_iter data_loader of
        (ev, Continue) \<Rightarrow> (ZeroGrad # ev @ [SynchronizeBetweenProcesses], Returned)
      | (ev, out) \<Rightarrow> (ZeroGrad # ev, out))"

section \<open>Python strings\<close>

text \<open>
  A string is a list of characters; a \<open>char\<close> stands for the code point of the same
  number (the code points below 256). \<^verbatim>\<open>str.isspace\<close>, \<^verbatim>\<open>str.rstrip()\<close> and
  the regular expression class \<^verbatim>\<open>\s\<close> agree on what whitespace is; in this range it
  is tab, line feed, vertical tab, form feed, carriage return, the four separators
  \<^verbatim>\<open>\x1c\<close> to \<^verbatim>\<open>\x1f\<close>, the space, \<^verbatim>\<open>\x85\<close> and the no-break space.
\<close>

definition py_isspace :: "char \<Rightarrow> bool" where
  "py_isspace c = (of_char c \<in> set [9, 10, 11, 12, 13, 28, 29, 30, 31, 32, 133, 160 :: nat])"

definition rstrip :: "string \<Rightarrow> string" where
  "rstrip s = rev (dropWhile py_isspace (rev s))"

text \<open>
  \<^verbatim>\<open>s.find(sub)\<close>: the index of the first occurrence of \<^verbatim>\<open>sub\<close> in \<^verbatim>\<open>s\<close>;
  \<open>None\<close> stands for the result \<^verbatim>\<open>-1\<close>.
\<close>

fun find_str :: "string \<Rightarrow> string \<Rightarrow> nat option" where
  "find_str [] sub = (if sub = [] then Some 0 else None)"
| "find_str (c # cs) sub =
     (if prefix sub (c # cs) then Some 0 else map_option Suc (find_str cs sub))"

text \<open>
  The slice \<^verbatim>\<open>s[:-n]\<close> for \<open>n \<ge> 0\<close>: Python reads \<^verbatim>\<open>s[:-0]\<close> as \<^verbatim>\<open>s[:0]\<close>,
  the empty string.
\<close>

definition slice_to_neg :: "string \<Rightarrow> nat \<Rightarrow> string" where
  "slice_to_neg s n = (if n = 0 then [] else take (length s - n) s)"

text \<open>
  \<^verbatim>\<open>s.replace(old, new)\<close>: every occurrence of \<^verbatim>\<open>old\<close>, found from left to right
  without overlap, is replaced. For the empty \<^verbatim>\<open>old\<close> Python puts \<^verbatim>\<open>new\<close> before
  every character and at the end.
\<close>

fun str_replace :: "string \<Rightarrow> string \<Rightarrow> string \<Rightarrow> string" where
  "str_replace old new [] = (if old = [] then new else [])"
| "str_replace old new (c # cs) =
     (if old = [] then new @ c # str_replace old new cs
      else if prefix old (c # cs) then new @ str_replace old new (drop (length old) (c # cs))
      else c # str_replace old new cs)"

text \<open>
  \<^verbatim>\<open>s.replace(old, new, 1)\<close>: only the first occurrence is replaced.
\<close>

fun replace_first :: "string \<Rightarrow> string \<Rightarrow> string \<Rightarrow> string" where
  "replace_first old new [] = (if old = [] then new else [])"
| "replace_first old new (c # cs) =
     (if prefix old (c # cs) then new @ drop (length old) (c # cs)
      else c # replace_first old new cs)"

section \<open>The inference worker: streaming a response\<close>

text \<open>
  A record of the model's \<^verbatim>\<open>stream_generate\<close>: the text generated so far and the
  end-of-content flag (the keys \<^verbatim>\<open>"text"\<close> and \<^verbatim>\<open>"end_of_content"\<close>).
\<close>

record stream_response =
  response_text :: string
  end_of_content :: bool

text \<open>
  Source lines 116--126. \<open>conv_sep\<close> is the separator of the conversation template
  (\<^verbatim>\<open>conv.sep\<close> or \<^verbatim>\<open>conv.sep2\<close>, by its separator style); the template is
  external, so the separator is a parameter. When it occurs in the text, the text is cut
  at the first occurrence, stripped of trailing whitespace, given a newline, and the flag
  is set.
\<close>

definition detect_separator :: "string \<Rightarrow> stream_response \<Rightarrow> stream_response" where
  "detect_separator conv_sep r =
     (case find_str (response_text r) conv_sep of
        Some end_pos \<Rightarrow>
          r\<lparr>response_text := rstrip (take end_pos (response_text r)) @ [CHR 0x0A], end_of_content := True\<rparr>
      | None \<Rightarrow> r)"

text \<open>
  The loop over the records of one request (source lines 112--141). \<open>responder\<close> says
  whether this worker has the response queue; the result is the list of records put on it.
  \<^verbatim>\<open>continue\<close> goes to the next record without a put, \<^verbatim>\<open>break\<close> leaves the loop.
\<close>

fun stream_loop :: "string \<Rightarrow> bool \<Rightarrow> stream_response list \<Rightarrow> stream_response list" where
  "stream_loop conv_sep responder [] = []"
| "stream_loop conv_sep responder (r # rs) =
     (let r1 = detect_separator conv_sep r in
      if \<not> end_of_content r1 \<and> length (response_text r1) < length conv_sep
      then stream_loop conv_sep responder rs
      else
        let r2 = (if \<not> end_of_content r1
                  then r1\<lparr>response_text := slice_to_neg (response_text r1) (length conv_sep)\<rparr> else r1);
            put = (if responder then [r2] else [])
        in if end_of_content r2 then put else put @ stream_loop conv_sep responder rs)"

text \<open>
  A record after which the loop goes on: its flag is still false after the separator
  detection.
\<close>

definition continuing :: "string \<Rightarrow> stream_response \<Rightarrow> bool" where
  "continuing conv_sep r = (\<not> end_of_content (detect_separator conv_sep r))"

section \<open>Post-processing a finished response: \<^verbatim>\<open>extract_and_color\<close>\<close>

subsection \<open>The two regular expressions\<close>

text \<open>
  The pattern \<^verbatim>\<open><p>(.*?)<\/p>\s*(\[[\d.,;\s]*\])\<close> as \<^verbatim>\<open>re.findall\<close> runs it.
  \<^verbatim>\<open>\d\<close> is a decimal digit (below code point 256 these are \<open>0\<close> to \<open>9\<close>) and
  \<^verbatim>\<open>\s\<close> is whitespace.
\<close>

definition is_digit :: "char \<Rightarrow> bool" where
  "is_digit c = (48 \<le> (of_char c :: nat) \<and> (of_char c :: nat) \<le> 57)"

definition in_coord_class :: "char \<Rightarrow> bool" where
  "in_coord_class c = (is_digit c \<or> c \<in> set ''.,;'' \<or> py_isspace c)"

text \<open>
  \<^verbatim>\<open>\s*(\[[\d.,;\s]*\])\<close> at the head of a string: the whitespace, then the bracket
  with a run of class characters. Both stars are greedy, and giving characters back never
  helps, since the character wanted next (\<open>[\<close>, then \<open>]\<close>) is in neither class. The
  result is the second group and what follows the match.
\<close>

definition match_coords :: "string \<Rightarrow> (string \<times> string) option" where
  "match_coords s =
     (case dropWhile py_isspace s of
        [] \<Rightarrow> None
      | c # s2 \<Rightarrow>
          if c = CHR ''[''
          then (case dropWhile in_coord_class s2 of
                  [] \<Rightarrow> None
                | d # rest \<Rightarrow>
                    if d = CHR '']''
                    then Some (''['' @ takeWhile in_coord_class s2 @ '']'', rest)
                    else None)
          else None)"

text \<open>
  \<^verbatim>\<open>(.*?)<\/p>\<close> followed by the above, after an opening \<^verbatim>\<open><p>\<close>: the lazy group
  \<open>acc\<close> grows one character at a time, never over a line feed, until the rest of the
  pattern matches.
\<close>

fun match_span :: "string \<Rightarrow> string \<Rightarrow> (string \<times> string \<times> string) option" where
  "match_span acc [] = None"
| "match_span acc (c # cs) =
     (case (if prefix ''</p>'' (c # cs) then match_coords (drop 4 (c # cs)) else None) of
        Some (list_str, rest) \<Rightarrow> Some (acc, list_str, rest)
      | None \<Rightarrow> if c = CHR 0x0A then None else match_span (acc @ [c]) cs)"

definition match_annotation :: "string \<Rightarrow> (string \<times> string \<times> string) option" where
  "match_annotation s = (if prefix ''<p>'' s then match_span [] (drop 3 s) else None)"

text \<open>
  A match consumes at least one character, so the scan of \<^verbatim>\<open>re.findall\<close> (the
  leftmost match, then on from its end) terminates.
\<close>

lemma match_coords_shorter: "match_coords s = Some (l, rest) \<Longrightarrow> length rest < length s"
proof -
  assume a: "match_coords s = Some (l, rest)"
  then obtain s2 where s2: "dropWhile py_isspace s = CHR ''['' # s2"
    by (auto simp: match_coords_def split: list.splits if_splits)
  then have r: "dropWhile in_coord_class s2 = CHR '']'' # rest"
    using a by (auto simp: match_coords_def split: list.splits if_splits)
  have "length (dropWhile in_coord_class s2) \<le> length s2"
    by (rule length_dropWhile_le)
  moreover have "length (dropWhile py_isspace s) \<le> length s"
    by (rule length_dropWhile_le)
  ultimately show ?thesis
    using s2 r by simp
qed

lemma match_span_shorter: "match_span acc s = Some (t, l, rest) \<Longrightarrow> length rest < length s"
proof (induction s arbitrary: acc)
  case Nil
  then show ?case by simp
next
  case (Cons c cs)
  show ?case
  proof (cases "if prefix ''</p>'' (c # cs) then match_coords (drop 4 (c # cs)) else None")
    case None
    then have "match_span (acc @ [c]) cs = Some (t, l, rest)"
      using Cons.prems by (simp split: if_splits)
    then show ?thesis
      using Cons.IH by fastforce
  next
    case (Some a)
    then have m: "match_coords (drop 4 (c # cs)) = Some (l, rest)"
      using Cons.prems by (auto split: if_splits)
    have "length rest < length (drop 4 (c # cs))"
      using m by (rule match_coords_shorter)
    then show ?thesis by simp
  qed
qed

lemma match_annotation_shorter:
  "match_annotation s = Some (t, l, rest) \<Longrightarrow> length rest < length s"
  by (auto simp: match_annotation_def split: if_splits dest!: match_span_shorter)

function findall_annotations :: "string \<Rightarrow> (string \<times> string) list" where
  "findall_annotations [] = []"
| "findall_annotations (c # cs) =
     (case match_annotation (c # cs) of
        Some (t, list_str, rest) \<Rightarrow> (t, list_str) # findall_annotations rest
      | None \<Rightarrow> findall_annotations cs)"
  by pat_completeness auto
termination
  by (relation "measure length") (auto dest: match_annotation_shorter)

text \<open>
  The pattern \<^verbatim>\<open>\d+\.\d+\<close> of source line 180: a maximal run of digits, a dot, a
  maximal run of digits.
\<close>

definition match_number :: "string \<Rightarrow> (string \<times> string) option" where
  "match_number s =
     (let int_part = takeWhile is_digit s in
      if int_part = [] then None
      else (case dropWhile is_digit s of
              [] \<Rightarrow> None
            | c # s2 \<Rightarrow>
                if c = CHR ''.'' \<and> takeWhile is_digit s2 \<noteq> []
                then Some (int_part @ ''.'' @ takeWhile is_digit s2, dropWhile is_digit s2)
                else None))"

lemma match_number_shorter: "match_number s = Some (x, rest) \<Longrightarrow> length rest < length s"
proof -
  assume a: "match_number s = Some (x, rest)"
  then obtain s2 where s2: "dropWhile is_digit s = CHR ''.'' # s2" and r: "rest = dropWhile is_digit s2"
    by (auto simp: match_number_def Let_def split: list.splits if_splits)
  have "length (dropWhile is_digit s2) \<le> length s2"
    by (rule length_dropWhile_le)
  moreover have "length (dropWhile is_digit s) \<le> length s"
    by (rule length_dropWhile_le)
  ultimately show ?thesis
    using s2 r by simp
qed

function findall_numbers :: "string \<Rightarrow> string list" where
  "findall_numbers [] = []"
| "findall_numbers (c # cs) =
     (case match_number (c # cs) of
        Some (x, rest) \<Rightarrow> x # findall_numbers rest
      | None \<Rightarrow> findall_numbers cs)"
  by pat_completeness auto
termination
  by (relation "measure length") (auto dest: match_number_shorter)

text \<open>
  \<^verbatim>\<open>float(x)\<close> on a string of the form \<^verbatim>\<open>\d+\.\d+\<close>, which always parses. The
  value is kept as the exact decimal fraction (the rounding to a double is left out).
\<close>

definition digits_value :: "string \<Rightarrow> nat" where
  "digits_value ds = foldl (\<lambda>n c. 10 * n + (of_char c - 48)) 0 ds"

definition float_of_str :: "string \<Rightarrow> rat" where
  "float_of_str x =
     (let int_part = takeWhile is_digit x;
          frac_part = drop (length int_part + 1) x
      in of_nat (digits_value int_part) + of_nat (digits_value frac_part) / 10 ^ length frac_part)"

text \<open>
  The strings of the form \<^verbatim>\<open>\d+\.\d+\<close>, the ones \<^verbatim>\<open>float\<close> is applied to.
\<close>

definition is_decimal :: "string \<Rightarrow> bool" where
  "is_decimal x =
     (let int_part = takeWhile is_digit x; r = dropWhile is_digit x
      in int_part \<noteq> [] \<and> r \<noteq> [] \<and> hd r = CHR ''.'' \<and> tl r \<noteq> [] \<and> list_all is_digit (tl r))"

subsection \<open>The colouring loop\<close>

text \<open>
  An entry of the structured list: the span text, its coordinates and its colour.
\<close>

type_synonym name_box_color = "string \<times> rat list \<times> string"

definition colors :: "string list" where
  "colors = [''red'', ''blue'', ''green'', ''purple'', ''orange'']"

definition colored_text :: "string \<Rightarrow> string \<Rightarrow> string" where
  "colored_text color t =
     ''<span style='' @ [CHR 0x22] @ ''color:'' @ color @ [CHR 0x22] @ ''>'' @ t @ ''</span>''"

text \<open>
  The loop over the matches (source lines 175--193), with the result list, the Markdown
  string and the colour index as its state.
\<close>

fun color_loop ::
  "(string \<times> string) list \<Rightarrow> name_box_color list \<Rightarrow> string \<Rightarrow> nat \<Rightarrow>
     name_box_color list \<times> string" where
  "color_loop [] result markdown_str color_idx = (result, markdown_str)"
| "color_loop ((t, list_str) # matches) result markdown_str color_idx =
     (let float_list = map float_of_str (findall_numbers list_str);
          color = colors ! color_idx
      in color_loop matches
           (result @ [(t, float_list, color)])
           (replace_first (''<p>'' @ t @ ''</p>'') (colored_text color t) markdown_str)
           ((color_idx + 1) mod length colors))"

definition extract_and_color :: "string \<Rightarrow> name_box_color list \<times> string" where
  "extract_and_color input_string =
     color_loop (findall_annotations input_string) [] input_string 0"

text \<open>
  The Markdown string after the first \<open>k\<close> matches have been through the loop.
\<close>

definition markdown_after :: "nat \<Rightarrow> string \<Rightarrow> string" where
  "markdown_after k input_string =
     snd (color_loop (take k (findall_annotations input_string)) [] input_string 0)"

text \<open>
  A string in which no \<open><\<close> is followed by \<open>p\<close>, and which does not end in
  \<open><\<close>: no opening tag \<^verbatim>\<open><p>\<close> starts in it.
\<close>

fun no_open_tag :: "string \<Rightarrow> bool" where
  "no_open_tag [] = True"
| "no_open_tag [c] = (c \<noteq> CHR ''<'')"
| "no_open_tag (c # d # cs) = (\<not> (c = CHR ''<'' \<and> d = CHR ''p'') \<and> no_open_tag (d # cs))"

section \<open>Drawing the boxes: \<^verbatim>\<open>draw_box_on_image\<close>\<close>

text \<open>
  What is drawn on the copy of the image, in order:
  \<^verbatim>\<open>draw.rectangle((x1, y1, x2, y2), outline=color, width=2)\<close> and
  \<^verbatim>\<open>draw.text((x, y), name, fill=color)\<close>. Coordinates are kept exact.
\<close>

datatype draw_op =
    Rectangle rat rat rat rat string nat
  | DrawText rat rat string string

text \<open>
  Source lines 201--206: the offset of the image in its square, with Python's integer
  division \<^verbatim>\<open>//\<close>.
\<close>

definition letterbox_origin :: "int \<Rightarrow> int \<Rightarrow> int \<times> int" where
  "letterbox_origin width height =
     (if width < height then ((height - width) div 2, 0)
      else (0, (width - height) div 2))"

text \<open>
  The inner loop over the coordinates of one span, four at a time. The unpacking
  \<^verbatim>\<open>x1, y1, x2, y2 = points_in_square[i:i+4]\<close> raises \<^verbatim>\<open>ValueError\<close> when fewer than
  four are left; the exception leaves the function, so nothing is returned then.
\<close>

fun draw_boxes ::
  "int \<Rightarrow> int \<times> int \<Rightarrow> string \<Rightarrow> string \<Rightarrow> rat list \<Rightarrow> py_error + draw_op list" where
  "draw_boxes max_edge origin name color [] = Inr []"
| "draw_boxes max_edge origin name color (x1 # y1 # x2 # y2 # points) =
     (let x1' = x1 * of_int max_edge - of_int (fst origin);
          y1' = y1 * of_int max_edge - of_int (snd origin);
          x2' = x2 * of_int max_edge - of_int (fst origin);
          y2' = y2 * of_int max_edge - of_int (snd origin)
      in case draw_boxes max_edge origin name color points of
           Inl e \<Rightarrow> Inl e
         | Inr ops \<Rightarrow>
             Inr (Rectangle x1' y1' x2' y2' color 2 # DrawText (x1' + 3) (y1' + 3) name color # ops))"
| "draw_boxes max_edge origin name color points = Inl ValueError"

fun draw_all ::
  "int \<Rightarrow> int \<times> int \<Rightarrow> name_box_color list \<Rightarrow> py_error + draw_op list" where
  "draw_all max_edge origin [] = Inr []"
| "draw_all max_edge origin ((name, points_in_square, color) # l_name_box_color) =
     (case draw_boxes max_edge origin name color points_in_square of
        Inl e \<Rightarrow> Inl e
      | Inr ops \<Rightarrow>
          (case draw_all max_edge origin l_name_box_color of
             Inl e \<Rightarrow> Inl e
           | Inr ops' \<Rightarrow> Inr (ops @ ops')))"

text \<open>
  \<^verbatim>\<open>Image.open(img_path).convert("RGB")\<close> is external: \<open>img\<close> is what it gives, an
  error or an image of some width and height. The font file is taken to load.
\<close>

definition draw_box_on_image ::
  "py_error + int \<times> int \<Rightarrow> name_box_color list \<Rightarrow> py_error + draw_op list" where
  "draw_box_on_image img l_name_box_color =
     (case img of
        Inl e \<Rightarrow> Inl e
      | Inr (width, height) \<Rightarrow>
          draw_all (max width height) (letterbox_origin width height) l_name_box_color)"

section \<open>The front-end orchestrator\<close>

text \<open>
  What a chunk's text becomes before it is shown (source line 257),
  \<^verbatim>\<open>text.replace("<", "&lt;").replace(">", "&gt;")\<close>, and what an utterance becomes
  before it is sent to the workers (lines 251 and 253),
  \<^verbatim>\<open>s.replace("&lt;", "<").replace("&gt;", ">")\<close>.
\<close>

definition escape_angle :: "string \<Rightarrow> string" where
  "escape_angle s = str_replace ''>'' ''&gt;'' (str_replace ''<'' ''&lt;'' s)"

definition unescape_angle :: "string \<Rightarrow> string" where
  "unescape_angle s = str_replace ''&gt;'' ''>'' (str_replace ''&lt;'' ''<'' s)"

text \<open>
  Source lines 248--253: the deep copy of the conversation in which every user and
  assistant utterance that is not \<^verbatim>\<open>None\<close> is unescaped.
\<close>

definition chatbot_for_model :: "conversation \<Rightarrow> conversation" where
  "chatbot_for_model chatbot =
     map (\<lambda>(user, bot).
            ((case user of None \<Rightarrow> None | Some u \<Rightarrow> Some (unescape_angle u)),
             (case bot of None \<Rightarrow> None | Some b \<Rightarrow> Some (unescape_angle b))))
         chatbot"

text \<open>
  The escaping seen character by character: with both angle brackets, and with the
  closing one only.
\<close>

definition esc_char :: "char \<Rightarrow> string" where
  "esc_char c = (if c = CHR ''<'' then ''&lt;'' else if c = CHR ''>'' then ''&gt;'' else [c])"

definition esc_gt :: "char \<Rightarrow> string" where
  "esc_gt c = (if c = CHR ''>'' then ''&gt;'' else [c])"

subsection \<open>One user turn: \<^verbatim>\<open>stream_model_output\<close>\<close>

text \<open>
  What travels on the shared response queue: the \<^verbatim>\<open>Ready\<close> object or a record of
  the stream. The queue is the list of the items that arrive, in order; a
  \<^verbatim>\<open>get\<close> on the empty list blocks for ever.
\<close>

datatype queue_item = Ready | Chunk stream_response

text \<open>
  The tuple put on a worker's request queue, and the triple the generator yields to the
  interface (the conversation, the coloured text for the second chat box, the annotated
  image; the last two are \<^verbatim>\<open>None\<close> while the response is streaming).
\<close>

type_synonym generation_request =
  "string option \<times> conversation \<times> int \<times> rat \<times> rat \<times> string"

type_synonym ui_update =
  "conversation \<times> (string \<times> string option) list option \<times> draw_op list option"

text \<open>
  The queue operations and yields of a turn in the order they happen, and how the
  generator ends.
\<close>

datatype io_event = Get queue_item | Put nat generation_request | Yield ui_update

datatype run_end = Completed | BlocksForever | Fails py_error

text \<open>
  Source lines 243--246: receive until the item is a \<^verbatim>\<open>Ready\<close>. The result is the
  queue left after it, \<open>None\<close> when no \<^verbatim>\<open>Ready\<close> ever arrives.
\<close>

fun wait_ready :: "queue_item list \<Rightarrow> io_event list \<times> queue_item list option" where
  "wait_ready [] = ([], None)"
| "wait_ready (content_piece # q) =
     (case content_piece of
        Ready \<Rightarrow> ([Get content_piece], Some q)
      | Chunk _ \<Rightarrow> (case wait_ready q of (ev, r) \<Rightarrow> (Get content_piece # ev, r)))"

text \<open>
  Source lines 247--254: every worker's queue gets the request (each its own copy of the
  unescaped conversation).
\<close>

definition fan_out ::
  "generation_request list list \<Rightarrow> generation_request \<Rightarrow>
     io_event list \<times> generation_request list list" where
  "fan_out request_queues request =
     (map (\<lambda>i. Put i request) [0 ..< length request_queues],
      map (\<lambda>queue. queue @ [request]) request_queues)"

text \<open>
  \<^verbatim>\<open>chatbot[-1][1] = s\<close>: \<^verbatim>\<open>IndexError\<close> on the empty conversation.
\<close>

definition set_reply :: "conversation \<Rightarrow> string \<Rightarrow> py_error + conversation" where
  "set_reply chatbot s =
     (if chatbot = [] then Inl IndexError
      else Inr (butlast chatbot @ [(fst (last chatbot), Some s)]))"

text \<open>
  Source lines 255--265, with the image that \<^verbatim>\<open>Image.open(img_path)\<close> gives. A
  \<^verbatim>\<open>Ready\<close> object received here is subscripted and raises \<^verbatim>\<open>TypeError\<close>. At a
  record with the end-of-content flag the text is post-processed and the boxes are drawn
  before the \<^verbatim>\<open>yield\<close>; an exception there leaves the generator.
\<close>

fun relay ::
  "(py_error + int \<times> int) \<Rightarrow> conversation \<Rightarrow> queue_item list \<Rightarrow>
     io_event list \<times> run_end \<times> queue_item list" where
  "relay img chatbot [] = ([], BlocksForever, [])"
| "relay img chatbot (content_piece # q) =
     (case content_piece of
        Ready \<Rightarrow> ([Get content_piece], Fails TypeError, q)
      | Chunk r \<Rightarrow>
          (case set_reply chatbot (escape_angle (response_text r)) of
             Inl e \<Rightarrow> ([Get content_piece], Fails e, q)
           | Inr chatbot' \<Rightarrow>
               if end_of_content r then
                 (case extract_and_color (response_text r) of
                    (boxed_objects, colored_piece) \<Rightarrow>
                      (case draw_box_on_image img boxed_objects of
                         Inl e \<Rightarrow> ([Get content_piece], Fails e, q)
                       | Inr boxed_image \<Rightarrow>
                           ([Get content_piece,
                             Yield (chatbot', Some [(colored_piece, None)], Some boxed_image)],
                            Completed, q)))
               else
                 (case relay img chatbot' q of
                    (ev, fin, q') \<Rightarrow>
                      (Get content_piece # Yield (chatbot', None, None) # ev, fin, q'))))"

definition stream_model_output ::
  "(string option \<Rightarrow> py_error + int \<times> int) \<Rightarrow> generation_request list list \<Rightarrow>
   queue_item list \<Rightarrow> string option \<Rightarrow> conversation \<Rightarrow> int \<Rightarrow> rat \<Rightarrow> rat \<Rightarrow> string \<Rightarrow>
     io_event list \<times> run_end \<times> queue_item list \<times> generation_request list list" where
  "stream_model_output image_open request_queues response_queue
       img_path chatbot max_gen_len gen_t top_p img_transform =
     (case wait_ready response_queue of
        (ev1, None) \<Rightarrow> (ev1, BlocksForever, [], request_queues)
      | (ev1, Some q1) \<Rightarrow>
          (case fan_out request_queues
                  (img_path, chatbot_for_model chatbot, max_gen_len, gen_t, top_p, img_transform) of
             (ev2, request_queues') \<Rightarrow>
               (case relay (image_open img_path) chatbot q1 of
                  (ev3, fin, q2) \<Rightarrow> (ev1 @ ev2 @ ev3, fin, q2, request_queues'))))"

text \<open>
  The conversation as shown for a record, and the post-processing of a last record.
\<close>

definition shown :: "conversation \<Rightarrow> stream_response \<Rightarrow> conversation" where
  "shown chatbot r =
     butlast chatbot @ [(fst (last chatbot), Some (escape_angle (response_text r)))]"

definition post_process ::
  "(py_error + int \<times> int) \<Rightarrow> stream_response \<Rightarrow> py_error + draw_op list" where
  "post_process img r = draw_box_on_image img (fst (extract_and_color (response_text r)))"

section \<open>Properties\<close>

text \<open>
  C9: for a non-empty conversation, undo returns the conversation without its last
  turn: the length drops by one, the result is the list with the last element removed, and
  every earlier turn stays at its position. On the empty conversation undo returns the
  empty conversation.
\<close>

theorem undo_drops_last:
  "undo [] = [] \<and>
   (C \<noteq> [] \<longrightarrow>
      length (undo C) = length C - 1 \<and>
      undo C = butlast C \<and>
      undo C @ [last C] = C \<and>
      (\<forall>i < length C - 1. undo C ! i = C ! i))"
proof -
  have "take (length C - 1) C = butlast C"
    by (simp add: butlast_conv_take)
  moreover have "C \<noteq> [] \<longrightarrow> butlast C @ [last C] = C"
    by simp
  moreover have "\<forall>i < length C - 1. butlast C ! i = C ! i"
    by (simp add: nth_butlast)
  ultimately show ?thesis
    by (simp add: undo_def)
qed

theorem undo_drops_last_witness:
  "[(Some ''a'', Some ''b''), (Some ''c'', None)] \<noteq> ([] :: conversation) \<and>
   length (undo [(Some ''a'', Some ''b''), (Some ''c'', None)]) = 1 \<and>
   undo [(Some ''a'', Some ''b''), (Some ''c'', None)] = [(Some ''a'', Some ''b'')]"
  using undo_drops_last [of "[(Some ''a'', Some ''b''), (Some ''c'', None)]"] by simp

subsection \<open>The training loop\<close>

lemma train_loop_append:
  "train_loop args i pre = (ev, Continue) \<Longrightarrow>
   train_loop args i (pre @ rest) =
     (case train_loop args (i + int (length pre)) rest of (ev', out) \<Rightarrow> (ev @ ev', out))"
proof (induction pre arbitrary: i ev)
  case Nil
  then show ?case by (simp split: prod.splits)
next
  case (Cons b pre)
  then show ?case
    by (auto split: prod.splits outcome.splits simp: algebra_simps)
qed

lemma train_step_nonfinite:
  assumes "accum_iter args \<noteq> 0"
      and "precision args \<in> set [''bf16'', ''fp16'', ''tf32'']"
      and "\<not> isfinite (loss_value b)"
  shows "train_step args i b =
           ((if i mod accum_iter args = 0 then [AdjustLearningRate i] else [])
              @ [Forward i, PrintLossStop], SysExit 1)"
  using assms by (simp add: train_step_def py_mod_def Let_def)

text \<open>
  C8: a training step whose loss value is not finite ends the process with exit code 1.
  The step is the one at index \<open>i\<close>, reached after the batches \<open>pre\<close> ran through; its
  loss is computed (the accumulation count is not zero and the precision is a known one).
  Then the step makes only the learning-rate adjustment, the forward pass and the
  message; the whole epoch ends there with \<^verbatim>\<open>sys.exit(1)\<close>, whatever batches follow;
  and the step calls neither the loss scaler (gradient scaling and optimizer update), nor
  \<^verbatim>\<open>zero_grad\<close>, nor the checkpoint save.
\<close>

theorem nonfinite_loss_exits:
  assumes "accum_iter args \<noteq> 0"
      and "precision args \<in> set [''bf16'', ''fp16'', ''tf32'']"
      and "\<not> isfinite (loss_value b)"
      and "train_loop args start_iter pre = (ev, Continue)"
      and "i = start_iter + int (length pre)"
  shows "train_step args i b =
           ((if i mod accum_iter args = 0 then [AdjustLearningRate i] else [])
              @ [Forward i, PrintLossStop], SysExit 1)
         \<and> train_one_epoch args start_iter (pre @ b # post) =
           (ZeroGrad # ev @ (if i mod accum_iter args = 0 then [AdjustLearningRate i] else [])
              @ [Forward i, PrintLossStop], SysExit 1)
         \<and> (\<forall>u c. LossScaler u c \<notin> set (fst (train_step args i b)))
         \<and> SaveCheckpoint i \<notin> set (fst (train_step args i b))
         \<and> ZeroGrad \<notin> set (fst (train_step args i b))"
proof -
  have step: "train_step args i b =
           ((if i mod accum_iter args = 0 then [AdjustLearningRate i] else [])
              @ [Forward i, PrintLossStop], SysExit 1)"
    using assms(1-3) by (rule train_step_nonfinite)
  have "train_loop args start_iter (pre @ b # post) =
          (case train_loop args i (b # post) of (ev', out) \<Rightarrow> (ev @ ev', out))"
    using train_loop_append [OF assms(4)] assms(5) by simp
  then have "train_loop args start_iter (pre @ b # post) =
          (ev @ (if i mod accum_iter args = 0 then [AdjustLearningRate i] else [])
              @ [Forward i, PrintLossStop], SysExit 1)"
    by (simp add: step)
  then have epoch: "train_one_epoch args start_iter (pre @ b # post) =
           (ZeroGrad # ev @ (if i mod accum_iter args = 0 then [AdjustLearningRate i] else [])
              @ [Forward i, PrintLossStop], SysExit 1)"
    by (simp add: train_one_epoch_def)
  show ?thesis
    using epoch by (simp add: step)
qed

theorem nonfinite_loss_exits_witness:
  "train_one_epoch
     \<lparr>accum_iter = 2, precision = ''bf16'', clip_grad = 0, log_steps = 1,
      save_iteration_interval = 2\<rparr> 0
     ([\<lparr>loss_value = Finite 1, grad_norm = None\<rparr>,
       \<lparr>loss_value = Finite 1, grad_norm = Some (Finite 1)\<rparr>]
      @ \<lparr>loss_value = NaN, grad_norm = None\<rparr>
      # [\<lparr>loss_value = Finite 1, grad_norm = None\<rparr>]) =
   (ZeroGrad #
    [AdjustLearningRate 0, Forward 0, LossScaler False None, Synchronize, UpdateMetrics,
     LogMetrics 0, Forward 1, LossScaler True None, UpdateGradNorm, ZeroGrad, Synchronize,
     UpdateMetrics, LogMetrics 1, SaveCheckpoint 1]
    @ [AdjustLearningRate 2] @ [Forward 2, PrintLossStop], SysExit 1)"
proof -
  let ?args = "\<lparr>accum_iter = 2, precision = ''bf16'', clip_grad = 0, log_steps = 1,
      save_iteration_interval = 2\<rparr>"
  let ?pre = "[\<lparr>loss_value = Finite 1, grad_norm = None\<rparr>,
       \<lparr>loss_value = Finite 1, grad_norm = Some (Finite 1)\<rparr>]"
  have a: "accum_iter ?args \<noteq> 0" by simp
  have b: "precision ?args \<in> set [''bf16'', ''fp16'', ''tf32'']"
    by simp
  have c: "\<not> isfinite (loss_value \<lparr>loss_value = NaN, grad_norm = None\<rparr>)" by simp
  have d: "train_loop ?args 0 ?pre =
     ([AdjustLearningRate 0, Forward 0, LossScaler False None, Synchronize, UpdateMetrics,
       LogMetrics 0, Forward 1, LossScaler True None, UpdateGradNorm, ZeroGrad, Synchronize,
       UpdateMetrics, LogMetrics 1, SaveCheckpoint 1], Continue)"
    by (simp add: train_step_def py_mod_def py_floordiv_def save_guard_def
        n_update_per_save_def Let_def)
  have e: "(2::int) = 0 + int (length ?pre)" by simp
  show ?thesis
    using nonfinite_loss_exits [OF a b c d e] by simp
qed

subsection \<open>The checkpoint guard\<close>

lemma step_not_continue:
  assumes "0 < accum_iter args" "0 \<le> save_iteration_interval args"
    "save_iteration_interval args < accum_iter args" "(i + 1) mod accum_iter args = 0"
  shows "snd (train_step args i b) \<noteq> Continue"
  using assms
  by (auto simp: train_step_def py_mod_def save_guard_def n_update_per_save_def
      py_floordiv_def Let_def split: sum.splits if_splits)

lemma step_raises_zero_division:
  assumes "0 < accum_iter args" "0 \<le> save_iteration_interval args"
    "save_iteration_interval args < accum_iter args" "(i + 1) mod accum_iter args = 0"
    "precision args \<in> set [''bf16'', ''fp16'', ''tf32'']"
    "isfinite (loss_value b)" "grad_norm b \<noteq> None"
  shows "snd (train_step args i b) = Raised ZeroDivisionError"
  using assms
  by (auto simp: train_step_def py_mod_def save_guard_def n_update_per_save_def
      py_floordiv_def Let_def split: sum.splits if_splits)

lemma step_no_save:
  assumes "0 < accum_iter args" "0 \<le> save_iteration_interval args"
    "save_iteration_interval args < accum_iter args"
  shows "SaveCheckpoint k \<notin> set (fst (train_step args i b))"
  using assms
  by (auto simp: train_step_def py_mod_def save_guard_def n_update_per_save_def
      py_floordiv_def Let_def split: sum.splits if_splits)

lemma loop_no_save:
  assumes "0 < accum_iter args" "0 \<le> save_iteration_interval args"
    "save_iteration_interval args < accum_iter args"
  shows "SaveCheckpoint k \<notin> set (fst (train_loop args i bs))"
proof (induction bs arbitrary: i)
  case Nil
  show ?case by simp
next
  case (Cons b bs)
  have a: "SaveCheckpoint k \<notin> set (fst (train_step args i b))"
    using assms by (rule step_no_save)
  have b: "SaveCheckpoint k \<notin> set (fst (train_loop args (i + 1) bs))"
    by (rule Cons.IH)
  show ?case
    using a b by (auto split: prod.splits outcome.splits)
qed

lemma loop_not_continue:
  assumes "0 < accum_iter args" "0 \<le> save_iteration_interval args"
    "save_iteration_interval args < accum_iter args"
  shows "j < length bs \<Longrightarrow> (i + int j + 1) mod accum_iter args = 0 \<Longrightarrow>
         snd (train_loop args i bs) \<noteq> Continue"
proof (induction bs arbitrary: i j)
  case Nil
  then show ?case by simp
next
  case (Cons b bs)
  show ?case
  proof (cases j)
    case 0
    then have "snd (train_step args i b) \<noteq> Continue"
      using Cons.prems assms by (simp add: step_not_continue)
    then show ?thesis
      by (auto split: prod.splits outcome.splits)
  next
    case (Suc j')
    then have "snd (train_loop args (i + 1) bs) \<noteq> Continue"
      using Cons.prems Cons.IH [of j' "i + 1"] by (simp add: algebra_simps)
    then show ?thesis
      by (auto split: prod.splits outcome.splits)
  qed
qed

lemma epoch_returned_iff:
  "snd (train_one_epoch args i bs) = Returned \<longleftrightarrow> snd (train_loop args i bs) = Continue"
proof (induction bs arbitrary: i)
  case Nil
  show ?case by (simp add: train_one_epoch_def)
next
  case (Cons b bs)
  have step: "snd (train_step args i b) \<noteq> Returned"
    by (auto simp: train_step_def py_mod_def Let_def split: sum.splits if_splits)
  show ?case
    using Cons [of "i + 1"] step
    by (auto simp: train_one_epoch_def split: prod.splits outcome.splits)
qed

lemma epoch_events:
  "set (fst (train_one_epoch args i bs)) \<subseteq>
     insert ZeroGrad (insert SynchronizeBetweenProcesses (set (fst (train_loop args i bs))))"
  by (auto simp: train_one_epoch_def split: prod.splits outcome.splits)

lemma guard_zero_iff:
  assumes "0 < accum_iter args"
  shows "n_update_per_save args = Inr 0 \<longleftrightarrow>
           0 \<le> save_iteration_interval args \<and> save_iteration_interval args < accum_iter args"
  using assms by (auto simp: n_update_per_save_def py_floordiv_def zdiv_eq_0_iff)

lemma guard_defined_iff:
  assumes "0 < accum_iter args"
  shows "(\<exists>r. save_guard args i True = Inr r) \<longleftrightarrow>
           \<not> (0 \<le> save_iteration_interval args \<and> save_iteration_interval args < accum_iter args)"
  using assms
  by (auto simp: save_guard_def n_update_per_save_def py_floordiv_def py_mod_def zdiv_eq_0_iff
      split: sum.splits)

text \<open>
  C10, as the code has it. With a positive accumulation count, the divisor
  \<^verbatim>\<open>save_iteration_interval // accum_iter\<close> is zero exactly when
  \<open>0 \<le> save_iteration_interval < accum_iter\<close>, and the guard of an update step is
  well-defined exactly when that is not the case (so also for a negative interval, where
  floor division gives a negative divisor). On a step that is not an update step the
  modulo is not evaluated. For \<open>0 \<le> save_iteration_interval < accum_iter\<close>: the guard
  of every update step raises \<^verbatim>\<open>ZeroDivisionError\<close>; an update step whose loss is
  finite and whose gradient norm is there ends with that error; no checkpoint is ever
  saved; and an epoch whose batches include an update step does not return.
\<close>

theorem checkpoint_guard_zero_divisor:
  assumes "0 < accum_iter args"
  shows "(n_update_per_save args = Inr 0 \<longleftrightarrow>
            0 \<le> save_iteration_interval args \<and> save_iteration_interval args < accum_iter args)
       \<and> ((\<exists>r. save_guard args i True = Inr r) \<longleftrightarrow>
            \<not> (0 \<le> save_iteration_interval args \<and> save_iteration_interval args < accum_iter args))
       \<and> save_guard args i False = Inr False
       \<and> (0 \<le> save_iteration_interval args \<and> save_iteration_interval args < accum_iter args \<longrightarrow>
            save_guard args i True = Inl ZeroDivisionError
          \<and> ((i + 1) mod accum_iter args = 0
               \<and> precision args \<in> set [''bf16'', ''fp16'', ''tf32'']
               \<and> isfinite (loss_value b) \<and> grad_norm b \<noteq> None \<longrightarrow>
               snd (train_step args i b) = Raised ZeroDivisionError)
          \<and> (\<forall>k. SaveCheckpoint k \<notin> set (fst (train_one_epoch args start_iter bs)))
          \<and> ((\<exists>j < length bs. (start_iter + int j + 1) mod accum_iter args = 0) \<longrightarrow>
               snd (train_one_epoch args start_iter bs) \<noteq> Returned))"
proof -
  let ?small = "0 \<le> save_iteration_interval args \<and> save_iteration_interval args < accum_iter args"
  have c1: "n_update_per_save args = Inr 0 \<longleftrightarrow> ?small"
    using assms by (rule guard_zero_iff)
  have c2: "(\<exists>r. save_guard args i True = Inr r) \<longleftrightarrow> \<not> ?small"
    using assms by (rule guard_defined_iff)
  have c3: "save_guard args i False = Inr False"
    using assms by (simp add: save_guard_def n_update_per_save_def py_floordiv_def)
  have c4: "?small \<longrightarrow>
            save_guard args i True = Inl ZeroDivisionError
          \<and> ((i + 1) mod accum_iter args = 0
               \<and> precision args \<in> set [''bf16'', ''fp16'', ''tf32'']
               \<and> isfinite (loss_value b) \<and> grad_norm b \<noteq> None \<longrightarrow>
               snd (train_step args i b) = Raised ZeroDivisionError)
          \<and> (\<forall>k. SaveCheckpoint k \<notin> set (fst (train_one_epoch args start_iter bs)))
          \<and> ((\<exists>j < length bs. (start_iter + int j + 1) mod accum_iter args = 0) \<longrightarrow>
               snd (train_one_epoch args start_iter bs) \<noteq> Returned)"
  proof (intro impI, elim conjE, intro conjI)
    assume lo: "0 \<le> save_iteration_interval args"
      and hi: "save_iteration_interval args < accum_iter args"
    have "n_update_per_save args = Inr 0"
      using c1 lo hi by simp
    then show "save_guard args i True = Inl ZeroDivisionError"
      using assms by (simp add: save_guard_def py_floordiv_def py_mod_def)
    show "(i + 1) mod accum_iter args = 0
               \<and> precision args \<in> set [''bf16'', ''fp16'', ''tf32'']
               \<and> isfinite (loss_value b) \<and> grad_norm b \<noteq> None \<longrightarrow>
               snd (train_step args i b) = Raised ZeroDivisionError"
    proof (intro impI, elim conjE)
      assume "(i + 1) mod accum_iter args = 0"
        and "precision args \<in> set [''bf16'', ''fp16'', ''tf32'']"
        and "isfinite (loss_value b)" and "grad_norm b \<noteq> None"
      then show "snd (train_step args i b) = Raised ZeroDivisionError"
        by (rule step_raises_zero_division [OF assms lo hi])
    qed
    show "\<forall>k. SaveCheckpoint k \<notin> set (fst (train_one_epoch args start_iter bs))"
    proof
      fix k
      have "SaveCheckpoint k \<notin> set (fst (train_loop args start_iter bs))"
        by (rule loop_no_save [OF assms lo hi])
      then show "SaveCheckpoint k \<notin> set (fst (train_one_epoch args start_iter bs))"
        using epoch_events [of args start_iter bs] by auto
    qed
    show "(\<exists>j < length bs. (start_iter + int j + 1) mod accum_iter args = 0) \<longrightarrow>
               snd (train_one_epoch args start_iter bs) \<noteq> Returned"
    proof
      assume "\<exists>j < length bs. (start_iter + int j + 1) mod accum_iter args = 0"
      then obtain j where j: "j < length bs" "(start_iter + int j + 1) mod accum_iter args = 0"
        by (elim exE conjE)
      have "snd (train_loop args start_iter bs) \<noteq> Continue"
        by (rule loop_not_continue [OF assms lo hi j])
      then show "snd (train_one_epoch args start_iter bs) \<noteq> Returned"
        by (simp add: epoch_returned_iff)
    qed
  qed
  from c1 c2 c3 c4 show ?thesis
    by (intro conjI)
qed

theorem checkpoint_guard_zero_divisor_witness:
  "n_update_per_save
     \<lparr>accum_iter = 4, precision = ''bf16'', clip_grad = 0, log_steps = 1,
      save_iteration_interval = 2\<rparr> = Inr 0
   \<and> save_guard
     \<lparr>accum_iter = 4, precision = ''bf16'', clip_grad = 0, log_steps = 1,
      save_iteration_interval = 2\<rparr> 3 True = Inl ZeroDivisionError
   \<and> snd (train_step
     \<lparr>accum_iter = 4, precision = ''bf16'', clip_grad = 0, log_steps = 1,
      save_iteration_interval = 2\<rparr> 3
     \<lparr>loss_value = Finite 1, grad_norm = Some (Finite 1)\<rparr>) = Raised ZeroDivisionError
   \<and> snd (train_one_epoch
     \<lparr>accum_iter = 4, precision = ''bf16'', clip_grad = 0, log_steps = 1,
      save_iteration_interval = 2\<rparr> 0
     (replicate 5 \<lparr>loss_value = Finite 1, grad_norm = Some (Finite 1)\<rparr>)) \<noteq> Returned"
proof -
  let ?args = "\<lparr>accum_iter = 4, precision = ''bf16'', clip_grad = 0, log_steps = 1,
      save_iteration_interval = 2\<rparr>"
  let ?b = "\<lparr>loss_value = Finite 1, grad_norm = Some (Finite 1)\<rparr>"
  have pos: "0 < accum_iter ?args" by simp
  have ex: "\<exists>j < length (replicate 5 ?b). (0 + int j + 1) mod accum_iter ?args = 0"
    by (rule exI [of _ 3]) simp
  show ?thesis
    using checkpoint_guard_zero_divisor [OF pos, of 3 ?b 0 "replicate 5 ?b"] ex by simp
qed

text \<open>
  The claim as stated fails for a negative interval: with
  \<^verbatim>\<open>save_iteration_interval = -1\<close> and \<^verbatim>\<open>accum_iter = 1\<close> the interval is below
  the accumulation count, the divisor is \<open>-1\<close>, and the epoch saves a checkpoint on
  every step and returns.
\<close>

theorem checkpoint_guard_negative_interval:
  "save_iteration_interval
     \<lparr>accum_iter = 1, precision = ''bf16'', clip_grad = 0, log_steps = 1,
      save_iteration_interval = - 1\<rparr>
   < accum_iter
     \<lparr>accum_iter = 1, precision = ''bf16'', clip_grad = 0, log_steps = 1,
      save_iteration_interval = - 1\<rparr>
   \<and> n_update_per_save
     \<lparr>accum_iter = 1, precision = ''bf16'', clip_grad = 0, log_steps = 1,
      save_iteration_interval = - 1\<rparr> = Inr (- 1)
   \<and> save_guard
     \<lparr>accum_iter = 1, precision = ''bf16'', clip_grad = 0, log_steps = 1,
      save_iteration_interval = - 1\<rparr> 0 True = Inr True
   \<and> train_one_epoch
     \<lparr>accum_iter = 1, precision = ''bf16'', clip_grad = 0, log_steps = 1,
      save_iteration_interval = - 1\<rparr> 0
     [\<lparr>loss_value = Finite 1, grad_norm = Some (Finite 1)\<rparr>,
      \<lparr>loss_value = Finite 1, grad_norm = Some (Finite 1)\<rparr>] =
   ([ZeroGrad,
     AdjustLearningRate 0, Forward 0, LossScaler True None, UpdateGradNorm, ZeroGrad,
     Synchronize, UpdateMetrics, LogMetrics 0, SaveCheckpoint 0,
     AdjustLearningRate 1, Forward 1, LossScaler True None, UpdateGradNorm, ZeroGrad,
     Synchronize, UpdateMetrics, LogMetrics 1, SaveCheckpoint 1,
     SynchronizeBetweenProcesses], Returned)"
  by (simp add: train_one_epoch_def train_step_def py_mod_def py_floordiv_def save_guard_def
      n_update_per_save_def Let_def)

subsection \<open>The worker's streaming loop\<close>

lemma find_str_None: "find_str s sub = None \<Longrightarrow> sub \<noteq> []"
  by (cases s) (auto split: if_splits)

lemma find_str_Some:
  "find_str s sub = Some p \<Longrightarrow>
     p \<le> length s \<and> prefix sub (drop p s) \<and> (\<forall>q < p. \<not> prefix sub (drop q s))"
proof (induction s arbitrary: p)
  case Nil
  then show ?case by (auto split: if_splits)
next
  case (Cons c cs)
  show ?case
  proof (cases "prefix sub (c # cs)")
    case True
    then show ?thesis using Cons.prems by simp
  next
    case False
    then obtain p' where p': "find_str cs sub = Some p'" "p = Suc p'"
      using Cons.prems by auto
    have ih: "p' \<le> length cs \<and> prefix sub (drop p' cs) \<and> (\<forall>q < p'. \<not> prefix sub (drop q cs))"
      using Cons.IH [OF p'(1)] .
    have "\<not> prefix sub (drop q (c # cs))" if "q < p" for q
    proof (cases q)
      case 0
      then show ?thesis using False by simp
    next
      case (Suc q')
      then show ?thesis using ih that p'(2) by simp
    qed
    then show ?thesis using ih p'(2) by simp
  qed
qed

lemma continuing_iff:
  "continuing conv_sep r \<longleftrightarrow> find_str (response_text r) conv_sep = None \<and> \<not> end_of_content r"
  by (simp add: continuing_def detect_separator_def split: option.splits)

lemma stream_loop_continuing:
  assumes "continuing conv_sep r"
  shows "stream_loop conv_sep responder (r # rs) =
           (if length (response_text r) < length conv_sep then []
            else if responder
              then [r\<lparr>response_text :=
                       take (length (response_text r) - length conv_sep) (response_text r)\<rparr>]
              else [])
           @ stream_loop conv_sep responder rs"
proof -
  have none: "find_str (response_text r) conv_sep = None" and ne: "\<not> end_of_content r"
    using assms by (simp_all add: continuing_iff)
  have "conv_sep \<noteq> []"
    using none by (rule find_str_None)
  then have sl: "slice_to_neg (response_text r) (length conv_sep) =
                   take (length (response_text r) - length conv_sep) (response_text r)"
    by (simp add: slice_to_neg_def)
  have d: "detect_separator conv_sep r = r"
    using none by (simp add: detect_separator_def)
  show ?thesis
    using ne by (simp add: d sl Let_def)
qed

lemma stream_loop_append:
  "list_all (continuing conv_sep) pre \<Longrightarrow>
   stream_loop conv_sep responder (pre @ rest) =
     stream_loop conv_sep responder pre @ stream_loop conv_sep responder rest"
proof (induction pre)
  case Nil
  show ?case by simp
next
  case (Cons r pre)
  then have c: "continuing conv_sep r" and rest: "list_all (continuing conv_sep) pre"
    by simp_all
  show ?case
    using Cons.IH [OF rest] by (simp only: append_Cons stream_loop_continuing [OF c] append_assoc)
qed

lemma stream_loop_found:
  assumes "find_str (response_text r) conv_sep = Some p"
  shows "stream_loop conv_sep responder (r # rs) =
           (if responder
            then [\<lparr>response_text = rstrip (take p (response_text r)) @ [CHR 0x0A],
                   end_of_content = True\<rparr>]
            else [])"
  using assms by (simp add: detect_separator_def Let_def)

lemma stream_loop_not_responder: "stream_loop conv_sep False rs = []"
  by (induction rs) (simp_all add: Let_def)

lemma rstrip_id: "s = [] \<or> \<not> py_isspace (last s) \<Longrightarrow> rstrip s = s"
  by (cases s rule: rev_cases) (auto simp: rstrip_def)

text \<open>
  C2, as the code has it. The records before \<open>r\<close> all leave the loop running, and the
  separator occurs in the text of \<open>r\<close>, first at position \<open>p\<close>. Then the responder's
  last put is the chunk with the flag set whose text is the prefix up to \<open>p\<close>,
  stripped of trailing whitespace, with a newline appended; nothing is put for the records
  after \<open>r\<close>. The stripped prefix is the prefix itself when that is empty or does not end
  in whitespace. A worker without the response queue puts nothing.
\<close>

theorem separator_ends_stream:
  assumes "list_all (continuing conv_sep) pre"
      and "find_str (response_text r) conv_sep = Some p"
  shows "stream_loop conv_sep True (pre @ r # post) =
           stream_loop conv_sep True pre
           @ [\<lparr>response_text = rstrip (take p (response_text r)) @ [CHR 0x0A],
                end_of_content = True\<rparr>]
         \<and> prefix conv_sep (drop p (response_text r))
         \<and> (\<forall>q < p. \<not> prefix conv_sep (drop q (response_text r)))
         \<and> (take p (response_text r) = [] \<or> \<not> py_isspace (last (take p (response_text r))) \<longrightarrow>
              rstrip (take p (response_text r)) = take p (response_text r))
         \<and> stream_loop conv_sep False (pre @ r # post) = []"
proof -
  have a: "stream_loop conv_sep True (pre @ r # post) =
           stream_loop conv_sep True pre
           @ [\<lparr>response_text = rstrip (take p (response_text r)) @ [CHR 0x0A],
                end_of_content = True\<rparr>]"
    by (simp add: stream_loop_append [OF assms(1)] stream_loop_found [OF assms(2)]
        del: stream_loop.simps)
  have b: "prefix conv_sep (drop p (response_text r))
         \<and> (\<forall>q < p. \<not> prefix conv_sep (drop q (response_text r)))"
    using find_str_Some [OF assms(2)] by simp
  have c: "take p (response_text r) = [] \<or> \<not> py_isspace (last (take p (response_text r))) \<longrightarrow>
              rstrip (take p (response_text r)) = take p (response_text r)"
    using rstrip_id by blast
  show ?thesis
    using a b c by (simp add: stream_loop_not_responder)
qed

theorem separator_ends_stream_witness:
  "list_all (continuing ''###'')
     [\<lparr>response_text = ''h'', end_of_content = False\<rparr>,
      \<lparr>response_text = ''hi t'', end_of_content = False\<rparr>]
   \<and> find_str ''hi th###'' ''###'' = Some 5
   \<and> stream_loop ''###'' True
       ([\<lparr>response_text = ''h'', end_of_content = False\<rparr>,
         \<lparr>response_text = ''hi t'', end_of_content = False\<rparr>]
        @ \<lparr>response_text = ''hi th###'', end_of_content = False\<rparr>
        # [\<lparr>response_text = ''hi th### x'', end_of_content = True\<rparr>]) =
     [\<lparr>response_text = ''h'', end_of_content = False\<rparr>,
      \<lparr>response_text = ''hi th'' @ [CHR 0x0A], end_of_content = True\<rparr>]"
proof -
  let ?pre = "[\<lparr>response_text = ''h'', end_of_content = False\<rparr>,
      \<lparr>response_text = ''hi t'', end_of_content = False\<rparr>]"
  have a: "list_all (continuing ''###'') ?pre"
    by (simp add: continuing_def detect_separator_def)
  have b: "find_str (response_text \<lparr>response_text = ''hi th###'', end_of_content = False\<rparr>)
             ''###'' = Some 5"
    by simp
  have c: "stream_loop ''###'' True ?pre = [\<lparr>response_text = ''h'', end_of_content = False\<rparr>]"
    by (simp add: detect_separator_def slice_to_neg_def Let_def)
  have d: "rstrip ''hi th'' = ''hi th''"
    by (simp add: rstrip_def py_isspace_def)
  show ?thesis
    using separator_ends_stream [OF a b,
        of "[\<lparr>response_text = ''hi th### x'', end_of_content = True\<rparr>]"] a b c d
    by simp
qed

text \<open>
  The prefix is not emitted as it is when it ends in whitespace: for the text
  \<^verbatim>\<open>"hi ###"\<close> the chunk is \<^verbatim>\<open>"hi\n"\<close>, not \<^verbatim>\<open>"hi \n"\<close>.
\<close>

theorem separator_prefix_rstripped:
  "find_str ''hi ###'' ''###'' = Some 3
   \<and> stream_loop ''###'' True [\<lparr>response_text = ''hi ###'', end_of_content = False\<rparr>] =
       [\<lparr>response_text = ''hi'' @ [CHR 0x0A], end_of_content = True\<rparr>]
   \<and> stream_loop ''###'' True [\<lparr>response_text = ''hi ###'', end_of_content = False\<rparr>] \<noteq>
       [\<lparr>response_text = take 3 ''hi ###'' @ [CHR 0x0A], end_of_content = True\<rparr>]"
  by (simp add: detect_separator_def rstrip_def py_isspace_def Let_def)

text \<open>
  C3: a record whose flag is false after the separator detection, reached while the loop
  is running. When its text is shorter than the separator nothing is put for it; otherwise
  the text put is the cumulative text without its last separator-length characters. The
  loop goes on with the records after it. A suffix of the cumulative text that is a proper
  prefix of the separator (a partly generated separator) lies wholly in the part held back.
\<close>

theorem withheld_suffix:
  assumes "list_all (continuing conv_sep) pre"
      and "\<not> end_of_content (detect_separator conv_sep r)"
  shows "stream_loop conv_sep True (pre @ r # post) =
           stream_loop conv_sep True pre
           @ (if length (response_text r) < length conv_sep then []
              else [r\<lparr>response_text :=
                       take (length (response_text r) - length conv_sep) (response_text r)\<rparr>])
           @ stream_loop conv_sep True post
         \<and> (length conv_sep \<le> length (response_text r) \<longrightarrow>
              (\<exists>held. response_text r =
                   take (length (response_text r) - length conv_sep) (response_text r) @ held
                 \<and> length held = length conv_sep))
         \<and> (\<forall>s. suffix s (response_text r) \<and> strict_prefix s conv_sep \<longrightarrow>
              prefix (take (length (response_text r) - length conv_sep) (response_text r))
                     (take (length (response_text r) - length s) (response_text r)))"
proof -
  have c: "continuing conv_sep r"
    using assms(2) by (simp add: continuing_def)
  have a: "stream_loop conv_sep True (pre @ r # post) =
           stream_loop conv_sep True pre
           @ (if length (response_text r) < length conv_sep then []
              else [r\<lparr>response_text :=
                       take (length (response_text r) - length conv_sep) (response_text r)\<rparr>])
           @ stream_loop conv_sep True post"
    by (simp add: stream_loop_append [OF assms(1)] stream_loop_continuing [OF c]
        del: stream_loop.simps)
  have b: "length conv_sep \<le> length (response_text r) \<longrightarrow>
              (\<exists>held. response_text r =
                   take (length (response_text r) - length conv_sep) (response_text r) @ held
                 \<and> length held = length conv_sep)"
  proof
    assume le: "length conv_sep \<le> length (response_text r)"
    let ?n = "length (response_text r) - length conv_sep"
    have "response_text r = take ?n (response_text r) @ drop ?n (response_text r)
          \<and> length (drop ?n (response_text r)) = length conv_sep"
      using le by simp
    then show "\<exists>held. response_text r = take ?n (response_text r) @ held
                 \<and> length held = length conv_sep"
      by (rule exI)
  qed
  have d: "prefix (take (length (response_text r) - length conv_sep) (response_text r))
                     (take (length (response_text r) - length s) (response_text r))"
    if "suffix s (response_text r) \<and> strict_prefix s conv_sep" for s
  proof -
    have "length s \<le> length conv_sep"
      using that by (auto simp: strict_prefix_def dest: prefix_length_le)
    then have le: "length (response_text r) - length conv_sep \<le> length (response_text r) - length s"
      by simp
    have "take (length (response_text r) - length conv_sep) (response_text r) =
          take (length (response_text r) - length conv_sep)
            (take (length (response_text r) - length s) (response_text r))"
      using le by (simp add: min_def)
    then show ?thesis
      using take_is_prefix [of "length (response_text r) - length conv_sep"
          "take (length (response_text r) - length s) (response_text r)"]
      by simp
  qed
  show ?thesis
    using a b d by simp
qed

theorem withheld_suffix_witness:
  "list_all (continuing ''###'') [\<lparr>response_text = ''h'', end_of_content = False\<rparr>]
   \<and> \<not> end_of_content
        (detect_separator ''###'' \<lparr>response_text = ''hi th #'', end_of_content = False\<rparr>)
   \<and> stream_loop ''###'' True
       ([\<lparr>response_text = ''h'', end_of_content = False\<rparr>]
        @ \<lparr>response_text = ''hi th #'', end_of_content = False\<rparr> # []) =
     [\<lparr>response_text = ''hi t'', end_of_content = False\<rparr>]"
proof -
  let ?pre = "[\<lparr>response_text = ''h'', end_of_content = False\<rparr>]"
  let ?r = "\<lparr>response_text = ''hi th #'', end_of_content = False\<rparr>"
  have a: "list_all (continuing ''###'') ?pre"
    by (simp add: continuing_def detect_separator_def)
  have b: "\<not> end_of_content (detect_separator ''###'' ?r)"
    by (simp add: detect_separator_def)
  have c: "stream_loop ''###'' True ?pre = []"
    by (simp add: detect_separator_def slice_to_neg_def Let_def)
  show ?thesis
    using withheld_suffix [OF a b, of "[]"] a b c
    by simp
qed

subsection \<open>Escaping and unescaping angle brackets\<close>

lemma replace_lt: "str_replace ''<'' ''&lt;'' s = concat (map (\<lambda>c. if c = CHR ''<'' then ''&lt;'' else [c]) s)"
  by (induction s) auto

lemma replace_gt: "str_replace ''>'' ''&gt;'' s = concat (map (\<lambda>c. if c = CHR ''>'' then ''&gt;'' else [c]) s)"
  by (induction s) auto

lemma replace_gt_append_lt: "str_replace ''>'' ''&gt;'' (''&lt;'' @ s) = ''&lt;'' @ str_replace ''>'' ''&gt;'' s"
  by simp

lemma escape_angle_chars: "escape_angle s = concat (map esc_char s)"
  unfolding escape_angle_def replace_lt
  by (induction s) (auto simp: esc_char_def)

lemma esc_char_simps:
  "esc_char CHR ''<'' = ''&lt;''"
  "esc_char CHR ''>'' = ''&gt;''"
  "c \<noteq> CHR ''<'' \<Longrightarrow> c \<noteq> CHR ''>'' \<Longrightarrow> esc_char c = [c]"
  by (simp_all add: esc_char_def)

lemma esc_gt_simps:
  "esc_gt CHR ''>'' = ''&gt;''"
  "c \<noteq> CHR ''>'' \<Longrightarrow> esc_gt c = [c]"
  by (simp_all add: esc_gt_def)

lemma prefix_plain_esc:
  "CHR ''<'' \<notin> set w \<Longrightarrow> CHR ''>'' \<notin> set w \<Longrightarrow> CHR ''&'' \<notin> set w \<Longrightarrow>
   prefix w (concat (map esc_char s)) \<longleftrightarrow> prefix w s"
proof (induction w arbitrary: s)
  case Nil
  show ?case by simp
next
  case (Cons x xs)
  show ?case
  proof (cases s)
    case Nil
    then show ?thesis by simp
  next
    case (Cons a as)
    then show ?thesis
      using Cons.prems Cons.IH [of as] by (auto simp: esc_char_def esc_gt_def)
  qed
qed

lemma prefix_plain_esc_gt:
  "CHR ''>'' \<notin> set w \<Longrightarrow> CHR ''&'' \<notin> set w \<Longrightarrow>
   prefix w (concat (map esc_gt s)) \<longleftrightarrow> prefix w s"
proof (induction w arbitrary: s)
  case Nil
  show ?case by simp
next
  case (Cons x xs)
  show ?case
  proof (cases s)
    case Nil
    then show ?thesis by simp
  next
    case (Cons a as)
    then show ?thesis
      using Cons.prems Cons.IH [of as] by (auto simp: esc_char_def esc_gt_def)
  qed
qed

lemma unescape_lt_of_escaped:
  "find_str s ''&lt;'' = None \<Longrightarrow>
   str_replace ''&lt;'' ''<'' (concat (map esc_char s)) = concat (map esc_gt s)"
proof (induction s)
  case Nil
  show ?case by simp
next
  case (Cons c cs)
  have np: "\<not> prefix ''&lt;'' (c # cs)" and rest: "find_str cs ''&lt;'' = None"
    using Cons.prems by (auto split: if_splits)
  have ih: "str_replace ''&lt;'' ''<'' (concat (map esc_char cs)) = concat (map esc_gt cs)"
    using Cons.IH [OF rest] .
  consider (lt) "c = CHR ''<''" | (gt) "c = CHR ''>''" | (amp) "c = CHR ''&''"
    | (other) "c \<noteq> CHR ''<''" "c \<noteq> CHR ''>''" "c \<noteq> CHR ''&''"
    by blast
  then show ?case
  proof cases
    case lt
    then show ?thesis using ih by (simp add: esc_char_simps esc_gt_simps)
  next
    case gt
    then show ?thesis using ih by (simp add: esc_char_simps esc_gt_simps)
  next
    case amp
    have "\<not> prefix ''lt;'' cs"
      using np amp by simp
    then have "\<not> prefix ''lt;'' (concat (map esc_char cs))"
      using prefix_plain_esc [of "''lt;''" cs] by simp
    then show ?thesis using ih amp by (simp add: esc_char_simps esc_gt_simps)
  next
    case other
    then show ?thesis using ih by (simp add: esc_char_simps esc_gt_simps)
  qed
qed

lemma unescape_gt_of_escaped:
  "find_str s ''&gt;'' = None \<Longrightarrow>
   str_replace ''&gt;'' ''>'' (concat (map esc_gt s)) = s"
proof (induction s)
  case Nil
  show ?case by simp
next
  case (Cons c cs)
  have np: "\<not> prefix ''&gt;'' (c # cs)" and rest: "find_str cs ''&gt;'' = None"
    using Cons.prems by (auto split: if_splits)
  have ih: "str_replace ''&gt;'' ''>'' (concat (map esc_gt cs)) = cs"
    using Cons.IH [OF rest] .
  consider (gt) "c = CHR ''>''" | (amp) "c = CHR ''&''"
    | (other) "c \<noteq> CHR ''>''" "c \<noteq> CHR ''&''"
    by blast
  then show ?case
  proof cases
    case gt
    then show ?thesis using ih by (simp add: esc_char_simps esc_gt_simps)
  next
    case amp
    have "\<not> prefix ''gt;'' cs"
      using np amp by simp
    then have "\<not> prefix ''gt;'' (concat (map esc_gt cs))"
      using prefix_plain_esc_gt [of "''gt;''" cs] by simp
    then show ?thesis using ih amp by (simp add: esc_char_simps esc_gt_simps)
  next
    case other
    then show ?thesis using ih by (simp add: esc_char_simps esc_gt_simps)
  qed
qed

lemma unescape_escape:
  assumes "find_str s ''&lt;'' = None" and "find_str s ''&gt;'' = None"
  shows "unescape_angle (escape_angle s) = s"
  by (simp only: unescape_angle_def escape_angle_chars unescape_lt_of_escaped [OF assms(1)]
      unescape_gt_of_escaped [OF assms(2)])

text \<open>
  C7, as the code has it. The displayed text is the chunk's text with every \<open><\<close>
  replaced by \<^verbatim>\<open>&lt;\<close> and every \<open>>\<close> by \<^verbatim>\<open>&gt;\<close>; the conversation sent to
  the workers has the same turns, each utterance that is there unescaped; and for a text
  in which neither \<^verbatim>\<open>&lt;\<close> nor \<^verbatim>\<open>&gt;\<close> occurs, escaping and then unescaping
  gives the text back.
\<close>

theorem escape_then_unescape:
  "escape_angle s = concat (map esc_char s)
   \<and> chatbot_for_model chatbot =
       map (\<lambda>(user, bot). (map_option unescape_angle user, map_option unescape_angle bot))
         chatbot
   \<and> length (chatbot_for_model chatbot) = length chatbot
   \<and> (find_str s ''&lt;'' = None \<and> find_str s ''&gt;'' = None \<longrightarrow>
        unescape_angle (escape_angle s) = s)"
proof -
  have "(\<lambda>(user, bot).
            ((case user of None \<Rightarrow> None | Some u \<Rightarrow> Some (unescape_angle u)),
             (case bot of None \<Rightarrow> None | Some b \<Rightarrow> Some (unescape_angle b)))) =
        (\<lambda>(user, bot). (map_option unescape_angle user, map_option unescape_angle bot))"
    by (auto simp: fun_eq_iff split: option.splits)
  then have m: "chatbot_for_model chatbot =
       map (\<lambda>(user, bot). (map_option unescape_angle user, map_option unescape_angle bot))
         chatbot"
    by (simp add: chatbot_for_model_def)
  have r: "find_str s ''&lt;'' = None \<and> find_str s ''&gt;'' = None \<longrightarrow>
        unescape_angle (escape_angle s) = s"
    using unescape_escape by blast
  show ?thesis
    using m r by (simp add: escape_angle_chars)
qed

theorem escape_then_unescape_witness:
  "find_str ''a <p>b</p>'' ''&lt;'' = None \<and> find_str ''a <p>b</p>'' ''&gt;'' = None
   \<and> escape_angle ''a <p>b</p>'' = ''a &lt;p&gt;b&lt;/p&gt;''
   \<and> unescape_angle (escape_angle ''a <p>b</p>'') = ''a <p>b</p>''
   \<and> chatbot_for_model [(Some ''&lt;p&gt;'', None)] = [(Some ''<p>'', None)]"
  using escape_then_unescape [of "''a <p>b</p>''" "[(Some ''&lt;p&gt;'', None)]"]
  by (simp add: esc_char_def unescape_angle_def)

text \<open>
  A text in which \<^verbatim>\<open>&lt;\<close> itself occurs does not come back: it is shown as it is,
  and unescaped to \<open><\<close>.
\<close>

theorem literal_entity_not_restored:
  "escape_angle ''&lt;'' = ''&lt;''
   \<and> unescape_angle (escape_angle ''&lt;'') = ''<''
   \<and> unescape_angle (escape_angle ''&lt;'') \<noteq> ''&lt;''"
  by (simp add: escape_angle_def unescape_angle_def)

subsection \<open>The letterbox offset\<close>

lemma draw_one_box:
  "draw_box_on_image (Inr (W, H)) [(name, [x1, y1, x2, y2], color)] =
     Inr [Rectangle (x1 * of_int (max W H) - of_int (fst (letterbox_origin W H)))
                    (y1 * of_int (max W H) - of_int (snd (letterbox_origin W H)))
                    (x2 * of_int (max W H) - of_int (fst (letterbox_origin W H)))
                    (y2 * of_int (max W H) - of_int (snd (letterbox_origin W H))) color 2,
          DrawText (x1 * of_int (max W H) - of_int (fst (letterbox_origin W H)) + 3)
                   (y1 * of_int (max W H) - of_int (snd (letterbox_origin W H)) + 3) name color]"
  by (simp add: draw_box_on_image_def Let_def)

lemma half_of_even: "even (d::int) \<Longrightarrow> (of_int (d div 2) :: rat) = of_int d / 2"
  by (auto elim!: evenE)

lemma half_of_odd: "odd (d::int) \<Longrightarrow> (of_int (d div 2) :: rat) = (of_int d - 1) / 2"
  by (auto elim!: oddE)

text \<open>
  C6, as the code has it. Each coordinate of a box is multiplied by \<open>max W H\<close> and the
  offset is subtracted; the offset is \<open>((H - W) div 2, 0)\<close> when \<open>W < H\<close> and
  \<open>(0, (W - H) div 2)\<close> otherwise, with floor division. So for \<open>W > H\<close> the box
  \<open>(0, 0, 0.5, 0.5)\<close> has its left and top at \<open>(0, - ((W - H) div 2))\<close>, and for
  \<open>W < H\<close> at \<open>(- ((H - W) div 2), 0)\<close>. The floor is the exact half when the
  difference is even, and half of the difference less one when it is odd.
\<close>

theorem letterbox_offset_floor:
  "draw_box_on_image (Inr (W, H)) [(name, [x1, y1, x2, y2], color)] =
     Inr [Rectangle (x1 * of_int (max W H) - of_int (fst (letterbox_origin W H)))
                    (y1 * of_int (max W H) - of_int (snd (letterbox_origin W H)))
                    (x2 * of_int (max W H) - of_int (fst (letterbox_origin W H)))
                    (y2 * of_int (max W H) - of_int (snd (letterbox_origin W H))) color 2,
          DrawText (x1 * of_int (max W H) - of_int (fst (letterbox_origin W H)) + 3)
                   (y1 * of_int (max W H) - of_int (snd (letterbox_origin W H)) + 3) name color]
   \<and> letterbox_origin W H =
       (if W < H then ((H - W) div 2, 0) else (0, (W - H) div 2))
   \<and> (H < W \<longrightarrow>
        draw_box_on_image (Inr (W, H)) [(name, [0, 0, 1 / 2, 1 / 2], color)] =
          Inr [Rectangle 0 (- of_int ((W - H) div 2))
                         (of_int W / 2) (of_int W / 2 - of_int ((W - H) div 2)) color 2,
               DrawText 3 (3 - of_int ((W - H) div 2)) name color])
   \<and> (W < H \<longrightarrow>
        draw_box_on_image (Inr (W, H)) [(name, [0, 0, 1 / 2, 1 / 2], color)] =
          Inr [Rectangle (- of_int ((H - W) div 2)) 0
                         (of_int H / 2 - of_int ((H - W) div 2)) (of_int H / 2) color 2,
               DrawText (3 - of_int ((H - W) div 2)) 3 name color])
   \<and> (even (W - H) \<longrightarrow> (of_int ((W - H) div 2) :: rat) = of_int (W - H) / 2)
   \<and> (odd (W - H) \<longrightarrow> (of_int ((W - H) div 2) :: rat) = (of_int (W - H) - 1) / 2)"
proof -
  have a: "H < W \<longrightarrow>
        draw_box_on_image (Inr (W, H)) [(name, [0, 0, 1 / 2, 1 / 2], color)] =
          Inr [Rectangle 0 (- of_int ((W - H) div 2))
                         (of_int W / 2) (of_int W / 2 - of_int ((W - H) div 2)) color 2,
               DrawText 3 (3 - of_int ((W - H) div 2)) name color]"
    by (simp add: draw_one_box letterbox_origin_def max_def)
  have b: "W < H \<longrightarrow>
        draw_box_on_image (Inr (W, H)) [(name, [0, 0, 1 / 2, 1 / 2], color)] =
          Inr [Rectangle (- of_int ((H - W) div 2)) 0
                         (of_int H / 2 - of_int ((H - W) div 2)) (of_int H / 2) color 2,
               DrawText (3 - of_int ((H - W) div 2)) 3 name color]"
    by (simp add: draw_one_box letterbox_origin_def max_def)
  have c: "even (W - H) \<longrightarrow> (of_int ((W - H) div 2) :: rat) = of_int (W - H) / 2"
    using half_of_even [of "W - H"] by simp
  have d: "odd (W - H) \<longrightarrow> (of_int ((W - H) div 2) :: rat) = (of_int (W - H) - 1) / 2"
    using half_of_odd [of "W - H"] by simp
  have e: "letterbox_origin W H =
       (if W < H then ((H - W) div 2, 0) else (0, (W - H) div 2))"
    by (simp add: letterbox_origin_def)
  from draw_one_box [of W H name x1 y1 x2 y2 color] e a b c d show ?thesis
    by (intro conjI)
qed

theorem letterbox_offset_floor_witness:
  "draw_box_on_image (Inr (6, 2)) [(''cat'', [0, 0, 1 / 2, 1 / 2], ''red'')] =
     Inr [Rectangle 0 (- 2) 3 1 ''red'' 2, DrawText 3 1 ''cat'' ''red'']
   \<and> draw_box_on_image (Inr (2, 6)) [(''cat'', [0, 0, 1 / 2, 1 / 2], ''red'')] =
     Inr [Rectangle (- 2) 0 1 3 ''red'' 2, DrawText 1 3 ''cat'' ''red'']
   \<and> letterbox_origin 7 2 = (0, 2)"
  using letterbox_offset_floor [of 6 2 "''cat''" 0 0 "1 / 2" "1 / 2" "''red''"]
    letterbox_offset_floor [of 2 6 "''cat''" 0 0 "1 / 2" "1 / 2" "''red''"]
    letterbox_offset_floor [of 7 2 "''cat''" 0 0 "1 / 2" "1 / 2" "''red''"]
  by simp

text \<open>
  For an odd difference the top is not \<open>- (W - H) / 2\<close>: a 5 by 2 image gives \<open>-1\<close>,
  not \<open>-1.5\<close>.
\<close>

theorem letterbox_offset_odd_difference:
  "draw_box_on_image (Inr (5, 2)) [(''cat'', [0, 0, 1 / 2, 1 / 2], ''red'')] =
     Inr [Rectangle 0 (- 1) (5 / 2) (3 / 2) ''red'' 2, DrawText 3 2 ''cat'' ''red'']
   \<and> (- 1 :: rat) \<noteq> - ((5 - 2) / 2)"
  by (simp add: draw_box_on_image_def letterbox_origin_def Let_def)

subsection \<open>Occurrences and first-occurrence replacement\<close>

lemma find_str_prefix: "prefix sub s \<Longrightarrow> find_str s sub = Some 0"
  by (cases s) auto

lemma find_str_complete:
  "s = a @ sub @ b \<Longrightarrow> \<exists>p \<le> length a. find_str s sub = Some p"
proof (induction a arbitrary: s)
  case Nil
  then show ?case by (simp add: find_str_prefix)
next
  case (Cons x a)
  then obtain p where p: "p \<le> length a" "find_str (a @ sub @ b) sub = Some p"
    by blast
  show ?case
  proof (cases "prefix sub s")
    case True
    then show ?thesis using Cons.prems by auto
  next
    case False
    then have "find_str s sub = Some (Suc p)"
      using Cons.prems p by simp
    then show ?thesis using p by simp
  qed
qed

lemma replace_first_found:
  "find_str s old = Some p \<Longrightarrow>
   replace_first old new s = take p s @ new @ drop (p + length old) s"
proof (induction s arbitrary: p)
  case Nil
  then show ?case by (auto split: if_splits)
next
  case (Cons c cs)
  show ?case
  proof (cases "prefix old (c # cs)")
    case True
    then show ?thesis using Cons.prems by simp
  next
    case False
    then obtain p' where p': "find_str cs old = Some p'" "p = Suc p'"
      using Cons.prems by auto
    show ?thesis
      using False Cons.IH [OF p'(1)] p'(2) by simp
  qed
qed

lemma replace_first_absent:
  "find_str s old = None \<Longrightarrow> replace_first old new s = s"
  by (induction s) (auto split: if_splits)

subsection \<open>What a match of the annotation pattern looks like\<close>

lemma match_coords_shape:
  "match_coords s = Some (l, rest) \<Longrightarrow> \<exists>ws. s = ws @ l @ rest"
proof -
  assume a: "match_coords s = Some (l, rest)"
  then obtain s2 where s2: "dropWhile py_isspace s = CHR ''['' # s2"
    by (auto simp: match_coords_def split: list.splits if_splits)
  then have r: "dropWhile in_coord_class s2 = CHR '']'' # rest"
    and l: "l = ''['' @ takeWhile in_coord_class s2 @ '']''"
    using a by (auto simp: match_coords_def split: list.splits if_splits)
  have "s = takeWhile py_isspace s @ dropWhile py_isspace s"
    by simp
  also have "\<dots> = takeWhile py_isspace s @ CHR ''['' # (takeWhile in_coord_class s2 @ dropWhile in_coord_class s2)"
    using s2 by simp
  also have "\<dots> = takeWhile py_isspace s @ l @ rest"
    using r l by simp
  finally show ?thesis by blast
qed

lemma match_span_shape:
  "match_span acc s = Some (t, l, rest) \<Longrightarrow>
   \<exists>u ws. t = acc @ u \<and> s = u @ ''</p>'' @ ws @ l @ rest"
proof (induction s arbitrary: acc)
  case Nil
  then show ?case by simp
next
  case (Cons c cs)
  show ?case
  proof (cases "if prefix ''</p>'' (c # cs) then match_coords (drop 4 (c # cs)) else None")
    case None
    then have "match_span (acc @ [c]) cs = Some (t, l, rest)"
      using Cons.prems by (simp split: if_splits)
    then obtain u ws where "t = (acc @ [c]) @ u" "cs = u @ ''</p>'' @ ws @ l @ rest"
      using Cons.IH by blast
    then have "t = acc @ (c # u) \<and> c # cs = (c # u) @ ''</p>'' @ ws @ l @ rest"
      by simp
    then show ?thesis by blast
  next
    case (Some a)
    then have pre: "prefix ''</p>'' (c # cs)"
      and m: "match_coords (drop 4 (c # cs)) = Some (l, rest)" and t: "t = acc"
      using Cons.prems by (auto split: if_splits)
    obtain ws where ws: "drop 4 (c # cs) = ws @ l @ rest"
      using match_coords_shape [OF m] by blast
    have "c # cs = ''</p>'' @ drop 4 (c # cs)"
      using pre by (auto simp: prefix_def)
    then have "t = acc @ [] \<and> c # cs = [] @ ''</p>'' @ ws @ l @ rest"
      using ws t by simp
    then show ?thesis by blast
  qed
qed

lemma match_annotation_shape:
  "match_annotation s = Some (t, l, rest) \<Longrightarrow>
   \<exists>mid. s = (''<p>'' @ t @ ''</p>'') @ mid @ rest"
proof -
  assume a: "match_annotation s = Some (t, l, rest)"
  then have pre: "prefix ''<p>'' s" and m: "match_span [] (drop 3 s) = Some (t, l, rest)"
    by (auto simp: match_annotation_def split: if_splits)
  obtain u ws where u: "t = [] @ u" "drop 3 s = u @ ''</p>'' @ ws @ l @ rest"
    using match_span_shape [OF m] by blast
  have "s = ''<p>'' @ drop 3 s"
    using pre by (auto simp: prefix_def)
  then have "s = (''<p>'' @ t @ ''</p>'') @ (ws @ l) @ rest"
    using u by simp
  then show ?thesis by blast
qed

lemma findall_annotations_Cons:
  "findall_annotations s = (t, l) # ms \<Longrightarrow>
   \<exists>pre mid rest. s = pre @ (''<p>'' @ t @ ''</p>'') @ mid @ rest
      \<and> findall_annotations rest = ms"
proof (induction s rule: findall_annotations.induct)
  case 1
  then show ?case by simp
next
  case (2 c cs)
  show ?case
  proof (cases "match_annotation (c # cs)")
    case None
    then have "findall_annotations cs = (t, l) # ms"
      using "2.prems" by simp
    then obtain pre mid rest where "cs = pre @ (''<p>'' @ t @ ''</p>'') @ mid @ rest"
      "findall_annotations rest = ms"
      using "2.IH"(1) [OF None] by blast
    then have "c # cs = (c # pre) @ (''<p>'' @ t @ ''</p>'') @ mid @ rest
      \<and> findall_annotations rest = ms"
      by simp
    then show ?thesis by blast
  next
    case (Some a)
    then obtain rest where a: "match_annotation (c # cs) = Some (t, l, rest)"
      and ms: "findall_annotations rest = ms"
      using "2.prems" by (cases a) auto
    obtain mid where "c # cs = (''<p>'' @ t @ ''</p>'') @ mid @ rest"
      using match_annotation_shape [OF a] by blast
    then have "c # cs = [] @ (''<p>'' @ t @ ''</p>'') @ mid @ rest \<and> findall_annotations rest = ms"
      using ms by simp
    then show ?thesis by blast
  qed
qed

subsection \<open>The colouring loop of \<^verbatim>\<open>extract_and_color\<close>\<close>

lemma color_loop_entries:
  "color_idx < 5 \<Longrightarrow>
   fst (color_loop ms result markdown_str color_idx) =
     result @ map (\<lambda>(k, (t, l)).
                (t, map float_of_str (findall_numbers l), colors ! ((color_idx + k) mod 5)))
              (enumerate 0 ms)"
proof (induction ms arbitrary: result markdown_str color_idx)
  case Nil
  show ?case by simp
next
  case (Cons m ms)
  obtain t l where m: "m = (t, l)"
    by (cases m)
  have lt: "(color_idx + 1) mod length colors < 5"
    by (simp add: colors_def)
  have len: "length colors = 5"
    by (simp add: colors_def)
  have "fst (color_loop (m # ms) result markdown_str color_idx) =
        (result @ [(t, map float_of_str (findall_numbers l), colors ! color_idx)])
        @ map (\<lambda>(k, (t, l)).
                (t, map float_of_str (findall_numbers l),
                 colors ! (((color_idx + 1) mod length colors + k) mod 5)))
              (enumerate 0 ms)"
    using Cons.IH [OF lt] by (simp add: m Let_def)
  also have "\<dots> = result @ map (\<lambda>(k, (t, l)).
                (t, map float_of_str (findall_numbers l), colors ! ((color_idx + k) mod 5)))
              (enumerate 0 (m # ms))"
    using Cons.prems
    by (simp add: m len mod_simps enumerate_Suc_eq [of 0] comp_def case_prod_unfold)
  finally show ?case .
qed

lemma extract_and_color_palette:
  "length (fst (extract_and_color s)) = length (findall_annotations s)
   \<and> (\<forall>k < length (findall_annotations s).
        fst (extract_and_color s) ! k =
          (fst (findall_annotations s ! k),
           map float_of_str (findall_numbers (snd (findall_annotations s ! k))),
           colors ! (k mod 5)))"
proof -
  have e: "fst (extract_and_color s) =
        map (\<lambda>(k, (t, l)). (t, map float_of_str (findall_numbers l), colors ! (k mod 5)))
          (enumerate 0 (findall_annotations s))"
    using color_loop_entries [of 0 "findall_annotations s" "[]" s]
    by (simp add: extract_and_color_def)
  show ?thesis
    by (simp add: e nth_enumerate_eq case_prod_unfold)
qed

lemma two_occurrences:
  assumes "findall_annotations s = [(t1, l1), (t2, l2)]"
  shows "\<exists>a b c. s = a @ (''<p>'' @ t1 @ ''</p>'') @ b @ (''<p>'' @ t2 @ ''</p>'') @ c"
proof -
  obtain pre1 mid1 rest1 where s: "s = pre1 @ (''<p>'' @ t1 @ ''</p>'') @ mid1 @ rest1"
    and r1: "findall_annotations rest1 = [(t2, l2)]"
    using findall_annotations_Cons [OF assms] by blast
  obtain pre2 mid2 rest2 where "rest1 = pre2 @ (''<p>'' @ t2 @ ''</p>'') @ mid2 @ rest2"
    using findall_annotations_Cons [OF r1] by blast
  then have "s = pre1 @ (''<p>'' @ t1 @ ''</p>'') @ (mid1 @ pre2)
                @ (''<p>'' @ t2 @ ''</p>'') @ (mid2 @ rest2)"
    using s by simp
  then show ?thesis by blast
qed

lemma second_still_there:
  assumes s: "s = a @ old @ b @ sub @ c" and p: "find_str s old = Some p"
  shows "\<exists>x y. take p s @ new @ drop (p + length old) s = x @ sub @ y"
proof -
  have "prefix old (drop 0 (old @ b @ sub @ c))"
    by simp
  have "\<not> length a < p"
  proof
    assume "length a < p"
    then have "\<not> prefix old (drop (length a) s)"
      using find_str_Some [OF p] by blast
    then show False using s by simp
  qed
  then have "p + length old \<le> length (a @ old)"
    by simp
  then have "drop (p + length old) s = drop (p + length old) (a @ old) @ b @ sub @ c"
    using s by simp
  then have "take p s @ new @ drop (p + length old) s =
             (take p s @ new @ drop (p + length old) (a @ old) @ b) @ sub @ c"
    by simp
  then show ?thesis by blast
qed

lemma match_number_decimal: "match_number s = Some (x, rest) \<Longrightarrow> is_decimal x"
proof -
  assume a: "match_number s = Some (x, rest)"
  then obtain s2 where s2: "dropWhile is_digit s = CHR ''.'' # s2"
    and x: "x = takeWhile is_digit s @ ''.'' @ takeWhile is_digit s2"
    and ne: "takeWhile is_digit s \<noteq> []" "takeWhile is_digit s2 \<noteq> []"
    by (auto simp: match_number_def Let_def split: list.splits if_splits)
  have nd: "\<not> is_digit CHR ''.''"
    by (simp add: is_digit_def)
  have all: "\<forall>c \<in> set (takeWhile is_digit s). is_digit c"
    by (auto dest: set_takeWhileD)
  have tw: "takeWhile is_digit x = takeWhile is_digit s"
    unfolding x using all nd by (simp add: takeWhile_append2)
  have dw: "dropWhile is_digit x = ''.'' @ takeWhile is_digit s2"
    unfolding x using all nd by (simp add: dropWhile_append2)
  have "list_all is_digit (takeWhile is_digit s2)"
    by (auto simp: list_all_iff dest: set_takeWhileD)
  then show ?thesis
    using ne by (simp add: is_decimal_def tw dw Let_def)
qed

lemma findall_numbers_decimal: "list_all is_decimal (findall_numbers l)"
proof (induction l rule: findall_numbers.induct)
  case 1
  show ?case by simp
next
  case (2 c cs)
  show ?case
  proof (cases "match_number (c # cs)")
    case None
    then show ?thesis using "2.IH"(1) by simp
  next
    case (Some a)
    obtain x rest where a: "a = (x, rest)"
      by (cases a)
    have "is_decimal x"
      using Some a match_number_decimal by simp
    moreover have "list_all is_decimal (findall_numbers rest)"
      using "2.IH"(2) [OF Some a [symmetric]] .
    ultimately show ?thesis
      using Some a by simp
  qed
qed

lemmas regex_eval =
  match_annotation_def match_coords_def match_number_def in_coord_class_def
  is_digit_def py_isspace_def Let_def

subsection \<open>The input with two annotations written out\<close>

lemma no_open_tag_plain: "CHR ''<'' \<notin> set u \<Longrightarrow> no_open_tag u"
  by (induction u rule: no_open_tag.induct) auto

lemma no_open_tag_Cons: "c \<noteq> CHR ''<'' \<Longrightarrow> no_open_tag v \<Longrightarrow> no_open_tag (c # v)"
  by (cases v) auto

lemma no_open_tag_append: "no_open_tag u \<Longrightarrow> no_open_tag v \<Longrightarrow> no_open_tag (u @ v)"
proof (induction u rule: no_open_tag.induct)
  case 1
  then show ?case by simp
next
  case (2 c)
  then show ?case by (simp add: no_open_tag_Cons)
next
  case (3 c d cs)
  then show ?case by simp
qed

lemma replace_first_at:
  "no_open_tag x \<Longrightarrow>
   replace_first (''<p>'' @ t) new (x @ (''<p>'' @ t) @ tail) = x @ new @ tail"
proof (induction x rule: no_open_tag.induct)
  case 1
  show ?case by simp
next
  case (2 c)
  then show ?case by simp
next
  case (3 c d cs)
  then show ?case by auto
qed

lemma match_coords_here:
  assumes "list_all py_isspace ws" and "list_all in_coord_class b"
  shows "match_coords (ws @ ''['' @ b @ '']'' @ rest) = Some (''['' @ b @ '']'', rest)"
proof -
  have nb: "\<not> py_isspace CHR ''[''" and nc: "\<not> in_coord_class CHR '']''"
    by (simp_all add: py_isspace_def in_coord_class_def is_digit_def)
  have d1: "dropWhile py_isspace (ws @ ''['' @ b @ '']'' @ rest) = ''['' @ b @ '']'' @ rest"
    using assms(1) nb by (simp add: dropWhile_append2 list_all_iff)
  have d2: "dropWhile in_coord_class (b @ '']'' @ rest) = '']'' @ rest"
    using assms(2) nc by (simp add: dropWhile_append2 list_all_iff)
  have t2: "takeWhile in_coord_class (b @ '']'' @ rest) = b"
    using assms(2) nc by (simp add: takeWhile_append2 list_all_iff)
  show ?thesis
    using d1 d2 t2 by (simp add: match_coords_def)
qed

lemma match_span_here:
  "CHR ''<'' \<notin> set t \<Longrightarrow> CHR 0x0A \<notin> set t \<Longrightarrow> match_coords tail = Some (l, rest) \<Longrightarrow>
   match_span acc (t @ ''</p>'' @ tail) = Some (acc @ t, l, rest)"
proof (induction t arbitrary: acc)
  case Nil
  then show ?case by simp
next
  case (Cons c cs)
  then show ?case by auto
qed

lemma match_annotation_here:
  assumes "CHR ''<'' \<notin> set t" and "CHR 0x0A \<notin> set t"
      and "list_all py_isspace ws" and "list_all in_coord_class b"
  shows "match_annotation (''<p>'' @ t @ ''</p>'' @ ws @ ''['' @ b @ '']'' @ rest) =
           Some (t, ''['' @ b @ '']'', rest)"
  using match_span_here [OF assms(1,2) match_coords_here [OF assms(3,4)], of "[]" rest]
  by (simp add: match_annotation_def)

lemma findall_skip:
  "CHR ''<'' \<notin> set pre \<Longrightarrow> findall_annotations (pre @ x) = findall_annotations x"
  by (induction pre) (auto simp: match_annotation_def)

lemma match_coords_bracket: "match_coords s = Some r \<Longrightarrow> CHR ''['' \<in> set s"
proof -
  assume a: "match_coords s = Some r"
  then obtain s2 where "dropWhile py_isspace s = CHR ''['' # s2"
    by (auto simp: match_coords_def split: list.splits if_splits)
  then have "CHR ''['' \<in> set (dropWhile py_isspace s)"
    by simp
  then show ?thesis
    by (rule set_dropWhileD)
qed

lemma match_span_bracket: "match_span acc s = Some r \<Longrightarrow> CHR ''['' \<in> set s"
proof (induction s arbitrary: acc)
  case Nil
  then show ?case by simp
next
  case (Cons c cs)
  show ?case
  proof (cases "if prefix ''</p>'' (c # cs) then match_coords (drop 4 (c # cs)) else None")
    case None
    then have "match_span (acc @ [c]) cs = Some r"
      using Cons.prems by (simp split: if_splits)
    then show ?thesis
      using Cons.IH by simp
  next
    case (Some a)
    then have "match_coords (drop 4 (c # cs)) = Some a"
      by (simp split: if_splits)
    then have "CHR ''['' \<in> set (drop 4 (c # cs))"
      by (rule match_coords_bracket)
    then show ?thesis
      by (rule in_set_dropD)
  qed
qed

lemma match_annotation_bracket: "match_annotation s = Some r \<Longrightarrow> CHR ''['' \<in> set s"
proof -
  assume "match_annotation s = Some r"
  then have "match_span [] (drop 3 s) = Some r"
    by (simp add: match_annotation_def split: if_splits)
  then have "CHR ''['' \<in> set (drop 3 s)"
    by (rule match_span_bracket)
  then show ?thesis
    by (rule in_set_dropD)
qed

lemma findall_none: "CHR ''['' \<notin> set post \<Longrightarrow> findall_annotations post = []"
proof (induction post)
  case Nil
  show ?case by simp
next
  case (Cons c cs)
  have "match_annotation (c # cs) = None"
  proof (cases "match_annotation (c # cs)")
    case None
    then show ?thesis .
  next
    case (Some r)
    then have "CHR ''['' \<in> set (c # cs)"
      by (rule match_annotation_bracket)
    then show ?thesis using Cons.prems by simp
  qed
  then show ?case
    using Cons by simp
qed

lemma findall_at:
  "match_annotation (c # cs) = Some (t, l, rest) \<Longrightarrow>
   findall_annotations (c # cs) = (t, l) # findall_annotations rest"
  by simp

lemma class_no_lt:
  "list_all py_isspace ws \<Longrightarrow> CHR ''<'' \<notin> set ws"
  "list_all in_coord_class b \<Longrightarrow> CHR ''<'' \<notin> set b"
  by (auto simp: list_all_iff py_isspace_def in_coord_class_def is_digit_def)

lemma two_annotations_found:
  assumes "CHR ''<'' \<notin> set pre" and "CHR ''<'' \<notin> set mid" and "CHR ''['' \<notin> set post"
      and "CHR ''<'' \<notin> set t1" and "CHR 0x0A \<notin> set t1"
      and "CHR ''<'' \<notin> set t2" and "CHR 0x0A \<notin> set t2"
      and "list_all py_isspace ws1" and "list_all py_isspace ws2"
      and "list_all in_coord_class b1" and "list_all in_coord_class b2"
  shows "findall_annotations
           (pre @ ''<p>'' @ t1 @ ''</p>'' @ ws1 @ ''['' @ b1 @ '']''
            @ mid @ ''<p>'' @ t2 @ ''</p>'' @ ws2 @ ''['' @ b2 @ '']'' @ post) =
         [(t1, ''['' @ b1 @ '']''), (t2, ''['' @ b2 @ '']'')]"
proof -
  let ?A2 = "''<p>'' @ t2 @ ''</p>'' @ ws2 @ ''['' @ b2 @ '']'' @ post"
  let ?A1 = "''<p>'' @ t1 @ ''</p>'' @ ws1 @ ''['' @ b1 @ '']'' @ mid @ ?A2"
  have m2: "match_annotation ?A2 = Some (t2, ''['' @ b2 @ '']'', post)"
    using assms(6,7,9,11) by (rule match_annotation_here)
  have f2: "findall_annotations ?A2 = [(t2, ''['' @ b2 @ '']'')]"
    using m2 findall_none [OF assms(3)] by simp
  have m1: "match_annotation ?A1 = Some (t1, ''['' @ b1 @ '']'', mid @ ?A2)"
    using assms(4,5,8,10) by (rule match_annotation_here)
  have "findall_annotations ?A1 = (t1, ''['' @ b1 @ '']'') # findall_annotations (mid @ ?A2)"
    using m1 by simp
  also have "findall_annotations (mid @ ?A2) = findall_annotations ?A2"
    using assms(2) by (rule findall_skip)
  finally have f1: "findall_annotations ?A1 = [(t1, ''['' @ b1 @ '']''), (t2, ''['' @ b2 @ '']'')]"
    using f2 by simp
  have "findall_annotations (pre @ ?A1) = findall_annotations ?A1"
    using assms(1) by (rule findall_skip)
  then show ?thesis
    using f1 by simp
qed

lemma two_annotations_rewritten:
  assumes "CHR ''<'' \<notin> set pre" and "CHR ''<'' \<notin> set mid"
      and "CHR ''<'' \<notin> set t1"
      and "list_all py_isspace ws1" and "list_all in_coord_class b1"
  shows "replace_first (''<p>'' @ t2 @ ''</p>'') new2
           (replace_first (''<p>'' @ t1 @ ''</p>'')
              (''<span style='' @ [CHR 0x22] @ ''color:red'' @ [CHR 0x22] @ ''>'' @ t1 @ ''</span>'')
              (pre @ ''<p>'' @ t1 @ ''</p>'' @ ws1 @ ''['' @ b1 @ '']''
               @ mid @ ''<p>'' @ t2 @ ''</p>'' @ tail)) =
         pre @ ''<span style='' @ [CHR 0x22] @ ''color:red'' @ [CHR 0x22] @ ''>'' @ t1 @ ''</span>''
         @ ws1 @ ''['' @ b1 @ '']'' @ mid @ new2 @ tail"
proof -
  let ?S1 = "''<span style='' @ [CHR 0x22] @ ''color:red'' @ [CHR 0x22] @ ''>'' @ t1 @ ''</span>''"
  have n1: "no_open_tag pre"
    using assms(1) by (rule no_open_tag_plain)
  have r1: "replace_first (''<p>'' @ t1 @ ''</p>'') ?S1
              (pre @ ''<p>'' @ t1 @ ''</p>'' @ ws1 @ ''['' @ b1 @ '']''
               @ mid @ ''<p>'' @ t2 @ ''</p>'' @ tail) =
            pre @ ?S1 @ ws1 @ ''['' @ b1 @ '']'' @ mid @ ''<p>'' @ t2 @ ''</p>'' @ tail"
    using replace_first_at [OF n1, of "t1 @ ''</p>''" ?S1
        "ws1 @ ''['' @ b1 @ '']'' @ mid @ ''<p>'' @ t2 @ ''</p>'' @ tail"]
    by simp
  have nt: "no_open_tag t1"
    using assms(3) by (rule no_open_tag_plain)
  have nw: "no_open_tag ws1"
    using class_no_lt(1) [OF assms(4)] by (rule no_open_tag_plain)
  have nb: "no_open_tag b1"
    using class_no_lt(2) [OF assms(5)] by (rule no_open_tag_plain)
  have nm: "no_open_tag mid"
    using assms(2) by (rule no_open_tag_plain)
  have n2: "no_open_tag (pre @ ?S1 @ ws1 @ ''['' @ b1 @ '']'' @ mid)"
    by (intro no_open_tag_append n1 nt nw nb nm) simp_all
  have r2: "replace_first (''<p>'' @ t2 @ ''</p>'') new2
              ((pre @ ?S1 @ ws1 @ ''['' @ b1 @ '']'' @ mid) @ (''<p>'' @ t2 @ ''</p>'') @ tail) =
            (pre @ ?S1 @ ws1 @ ''['' @ b1 @ '']'' @ mid) @ new2 @ tail"
    using replace_first_at [OF n2, of "t2 @ ''</p>''" new2 tail] by simp
  show ?thesis
    using r2 by (simp only: r1) simp
qed

subsection \<open>The rewritten string\<close>

lemma color_loop_snoc:
  "color_idx < 5 \<Longrightarrow>
   color_loop (ms @ [(t, l)]) result markdown_str color_idx =
     (fst (color_loop ms result markdown_str color_idx)
        @ [(t, map float_of_str (findall_numbers l), colors ! ((color_idx + length ms) mod 5))],
      replace_first (''<p>'' @ t @ ''</p>'')
        (colored_text (colors ! ((color_idx + length ms) mod 5)) t)
        (snd (color_loop ms result markdown_str color_idx)))"
proof (induction ms arbitrary: result markdown_str color_idx)
  case Nil
  then show ?case by (simp add: Let_def)
next
  case (Cons m ms)
  obtain t' l' where m: "m = (t', l')"
    by (cases m)
  have len: "length colors = 5"
    by (simp add: colors_def)
  have lt: "(color_idx + 1) mod length colors < 5"
    by (simp add: len)
  show ?case
    using Cons.IH [OF lt] by (simp add: m Let_def len mod_simps)
qed

lemma markdown_after_Suc:
  assumes "k < length (findall_annotations s)"
  shows "markdown_after (Suc k) s =
     replace_first (''<p>'' @ fst (findall_annotations s ! k) @ ''</p>'')
       (colored_text (colors ! (k mod 5)) (fst (findall_annotations s ! k)))
       (markdown_after k s)"
proof -
  obtain t l where tl: "findall_annotations s ! k = (t, l)"
    by (cases "findall_annotations s ! k")
  have "take (Suc k) (findall_annotations s) = take k (findall_annotations s) @ [(t, l)]"
    using assms tl by (simp add: take_Suc_conv_app_nth)
  then show ?thesis
    using assms color_loop_snoc [of 0 "take k (findall_annotations s)" t l "[]" s]
    by (simp add: markdown_after_def tl)
qed

lemma replace_keeps_tail:
  assumes s: "s = a @ old @ b" and p: "find_str s old = Some p"
  shows "\<exists>x. take p s @ new @ drop (p + length old) s = x @ b"
proof -
  have "\<not> length a < p"
  proof
    assume "length a < p"
    then have "\<not> prefix old (drop (length a) s)"
      using find_str_Some [OF p] by blast
    then show False using s by simp
  qed
  then have "p + length old \<le> length (a @ old)"
    by simp
  then have "drop (p + length old) s = drop (p + length old) (a @ old) @ b"
    using s by simp
  then have "take p s @ new @ drop (p + length old) s =
             (take p s @ new @ drop (p + length old) (a @ old)) @ b"
    by simp
  then show ?thesis by blast
qed

lemma markdown_after_tail:
  "k \<le> length (findall_annotations s) \<Longrightarrow>
   \<exists>X R. markdown_after k s = X @ R \<and> findall_annotations R = drop k (findall_annotations s)"
proof (induction k)
  case 0
  have "markdown_after 0 s = [] @ s \<and> findall_annotations s = drop 0 (findall_annotations s)"
    by (simp add: markdown_after_def)
  then show ?case by blast
next
  case (Suc k)
  then have k: "k < length (findall_annotations s)"
    by simp
  obtain X R where md: "markdown_after k s = X @ R"
    and fr: "findall_annotations R = drop k (findall_annotations s)"
    using Suc.IH k by auto
  obtain t l where tl: "findall_annotations s ! k = (t, l)"
    by (cases "findall_annotations s ! k")
  have "findall_annotations R = (t, l) # drop (Suc k) (findall_annotations s)"
    using fr tl Cons_nth_drop_Suc [OF k, symmetric] by simp
  then obtain pre mid rest where R: "R = pre @ (''<p>'' @ t @ ''</p>'') @ mid @ rest"
    and rest: "findall_annotations rest = drop (Suc k) (findall_annotations s)"
    using findall_annotations_Cons by blast
  have shape: "markdown_after k s = (X @ pre) @ (''<p>'' @ t @ ''</p>'') @ (mid @ rest)"
    using md R by simp
  obtain p where p: "find_str (markdown_after k s) (''<p>'' @ t @ ''</p>'') = Some p"
    using find_str_complete [OF shape] by blast
  have "markdown_after (Suc k) s =
          take p (markdown_after k s) @ colored_text (colors ! (k mod 5)) t
            @ drop (p + length (''<p>'' @ t @ ''</p>'')) (markdown_after k s)"
    using markdown_after_Suc [OF k] replace_first_found [OF p] by (simp add: tl)
  then obtain x where "markdown_after (Suc k) s = x @ (mid @ rest)"
    using replace_keeps_tail [OF shape p, of "colored_text (colors ! (k mod 5)) t"] by auto
  then have "markdown_after (Suc k) s = (x @ mid) @ rest
      \<and> findall_annotations rest = drop (Suc k) (findall_annotations s)"
    using rest by simp
  then show ?case by blast
qed

lemma every_match_rewrites:
  assumes k: "k < length (findall_annotations s)"
  shows "\<exists>p. find_str (markdown_after k s)
                (''<p>'' @ fst (findall_annotations s ! k) @ ''</p>'') = Some p
           \<and> markdown_after (Suc k) s =
               take p (markdown_after k s)
               @ colored_text (colors ! (k mod 5)) (fst (findall_annotations s ! k))
               @ drop (p + length (''<p>'' @ fst (findall_annotations s ! k) @ ''</p>''))
                   (markdown_after k s)"
proof -
  obtain X R where md: "markdown_after k s = X @ R"
    and fr: "findall_annotations R = drop k (findall_annotations s)"
    using markdown_after_tail [of k s] k by auto
  obtain t l where tl: "findall_annotations s ! k = (t, l)"
    by (cases "findall_annotations s ! k")
  have "findall_annotations R = (t, l) # drop (Suc k) (findall_annotations s)"
    using fr tl Cons_nth_drop_Suc [OF k, symmetric] by simp
  then obtain pre mid rest where R: "R = pre @ (''<p>'' @ t @ ''</p>'') @ mid @ rest"
    using findall_annotations_Cons by blast
  have shape: "markdown_after k s = (X @ pre) @ (''<p>'' @ t @ ''</p>'') @ (mid @ rest)"
    using md R by simp
  obtain p where p: "find_str (markdown_after k s) (''<p>'' @ t @ ''</p>'') = Some p"
    using find_str_complete [OF shape] by blast
  have "markdown_after (Suc k) s =
          take p (markdown_after k s) @ colored_text (colors ! (k mod 5)) t
            @ drop (p + length (''<p>'' @ t @ ''</p>'')) (markdown_after k s)"
    using markdown_after_Suc [OF k] replace_first_found [OF p] by (simp add: tl)
  then show ?thesis
    using p by (simp add: tl)
qed

lemma markdown_after_all:
  "markdown_after (length (findall_annotations s)) s = snd (extract_and_color s)"
  by (simp add: markdown_after_def extract_and_color_def)

lemma two_matches_rewritten:
  assumes "findall_annotations s = [(t1, l1), (t2, l2)]"
  shows "\<exists>p1 p2 m1 m2.
           find_str s (''<p>'' @ t1 @ ''</p>'') = Some p1
         \<and> (\<forall>q < p1. \<not> prefix (''<p>'' @ t1 @ ''</p>'') (drop q s))
         \<and> m1 = take p1 s
                  @ ''<span style='' @ [CHR 0x22] @ ''color:red'' @ [CHR 0x22] @ ''>'' @ t1
                  @ ''</span>'' @ drop (p1 + length (''<p>'' @ t1 @ ''</p>'')) s
         \<and> find_str m1 (''<p>'' @ t2 @ ''</p>'') = Some p2
         \<and> (\<forall>q < p2. \<not> prefix (''<p>'' @ t2 @ ''</p>'') (drop q m1))
         \<and> m2 = take p2 m1
                  @ ''<span style='' @ [CHR 0x22] @ ''color:blue'' @ [CHR 0x22] @ ''>'' @ t2
                  @ ''</span>'' @ drop (p2 + length (''<p>'' @ t2 @ ''</p>'')) m1
         \<and> extract_and_color s =
             ([(t1, map float_of_str (findall_numbers l1), ''red''),
               (t2, map float_of_str (findall_numbers l2), ''blue'')], m2)"
proof -
  let ?P1 = "''<p>'' @ t1 @ ''</p>''" and ?P2 = "''<p>'' @ t2 @ ''</p>''"
  let ?S1 = "''<span style='' @ [CHR 0x22] @ ''color:red'' @ [CHR 0x22] @ ''>'' @ t1 @ ''</span>''"
  let ?S2 = "''<span style='' @ [CHR 0x22] @ ''color:blue'' @ [CHR 0x22] @ ''>'' @ t2 @ ''</span>''"
  have c1: "colored_text ''red'' t1 = ?S1" and c2: "colored_text ''blue'' t2 = ?S2"
    by (simp_all add: colored_text_def)
  obtain a b c where s: "s = a @ ?P1 @ b @ ?P2 @ c"
    using two_occurrences [OF assms] by blast
  obtain p1 where p1: "find_str s ?P1 = Some p1"
    using find_str_complete [OF s] by blast
  define m1 where "m1 = take p1 s @ ?S1 @ drop (p1 + length ?P1) s"
  obtain x y where "m1 = x @ ?P2 @ y"
    using second_still_there [OF s p1, of ?S1] m1_def by blast
  then obtain p2 where p2: "find_str m1 ?P2 = Some p2"
    using find_str_complete by blast
  define m2 where "m2 = take p2 m1 @ ?S2 @ drop (p2 + length ?P2) m1"
  have f1: "\<forall>q < p1. \<not> prefix ?P1 (drop q s)"
    using find_str_Some [OF p1] by blast
  have f2: "\<forall>q < p2. \<not> prefix ?P2 (drop q m1)"
    using find_str_Some [OF p2] by blast
  have r1: "replace_first ?P1 (colored_text ''red'' t1) s = m1"
    using replace_first_found [OF p1] by (simp add: m1_def c1)
  have r2: "replace_first ?P2 (colored_text ''blue'' t2) m1 = m2"
    using replace_first_found [OF p2] by (simp add: m2_def c2)
  have "extract_and_color s =
          ([(t1, map float_of_str (findall_numbers l1), ''red''),
            (t2, map float_of_str (findall_numbers l2), ''blue'')],
           replace_first ?P2 (colored_text ''blue'' t2)
             (replace_first ?P1 (colored_text ''red'' t1) s))"
    by (simp add: extract_and_color_def assms colors_def Let_def)
  then have e: "extract_and_color s =
          ([(t1, map float_of_str (findall_numbers l1), ''red''),
            (t2, map float_of_str (findall_numbers l2), ''blue'')], m2)"
    by (simp only: r1 r2)
  show ?thesis
    using p1 f1 m1_def [symmetric] p2 f2 m2_def [symmetric] e
    by (intro exI [of _ p1] exI [of _ p2] exI [of _ m1] exI [of _ m2]) simp
qed

lemma two_annotations_result:
  assumes "CHR ''<'' \<notin> set pre" and "CHR ''<'' \<notin> set mid" and "CHR ''['' \<notin> set post"
      and "CHR ''<'' \<notin> set t1" and "CHR 0x0A \<notin> set t1"
      and "CHR ''<'' \<notin> set t2" and "CHR 0x0A \<notin> set t2"
      and "list_all py_isspace ws1" and "list_all py_isspace ws2"
      and "list_all in_coord_class b1" and "list_all in_coord_class b2"
  shows "extract_and_color
           (pre @ ''<p>'' @ t1 @ ''</p>'' @ ws1 @ ''['' @ b1 @ '']''
            @ mid @ ''<p>'' @ t2 @ ''</p>'' @ ws2 @ ''['' @ b2 @ '']'' @ post) =
         ([(t1, map float_of_str (findall_numbers (''['' @ b1 @ '']'')), ''red''),
           (t2, map float_of_str (findall_numbers (''['' @ b2 @ '']'')), ''blue'')],
          pre @ ''<span style='' @ [CHR 0x22] @ ''color:red'' @ [CHR 0x22] @ ''>'' @ t1
          @ ''</span>'' @ ws1 @ ''['' @ b1 @ '']''
          @ mid @ ''<span style='' @ [CHR 0x22] @ ''color:blue'' @ [CHR 0x22] @ ''>'' @ t2
          @ ''</span>'' @ ws2 @ ''['' @ b2 @ '']'' @ post)"
proof -
  let ?s = "pre @ ''<p>'' @ t1 @ ''</p>'' @ ws1 @ ''['' @ b1 @ '']''
            @ mid @ ''<p>'' @ t2 @ ''</p>'' @ ws2 @ ''['' @ b2 @ '']'' @ post"
  let ?S1 = "''<span style='' @ [CHR 0x22] @ ''color:red'' @ [CHR 0x22] @ ''>'' @ t1 @ ''</span>''"
  let ?S2 = "''<span style='' @ [CHR 0x22] @ ''color:blue'' @ [CHR 0x22] @ ''>'' @ t2 @ ''</span>''"
  have fa: "findall_annotations ?s = [(t1, ''['' @ b1 @ '']''), (t2, ''['' @ b2 @ '']'')]"
    using assms by (rule two_annotations_found)
  have c1: "colored_text ''red'' t1 = ?S1" and c2: "colored_text ''blue'' t2 = ?S2"
    by (simp_all add: colored_text_def)
  have rw: "replace_first (''<p>'' @ t2 @ ''</p>'') ?S2
           (replace_first (''<p>'' @ t1 @ ''</p>'') ?S1 ?s) =
         pre @ ?S1 @ ws1 @ ''['' @ b1 @ '']'' @ mid @ ?S2 @ ws2 @ ''['' @ b2 @ '']'' @ post"
    using two_annotations_rewritten [OF assms(1,2,4,8,10), of t2 ?S2
        "ws2 @ ''['' @ b2 @ '']'' @ post"]
    by simp
  have "extract_and_color ?s =
          ([(t1, map float_of_str (findall_numbers (''['' @ b1 @ '']'')), ''red''),
            (t2, map float_of_str (findall_numbers (''['' @ b2 @ '']'')), ''blue'')],
           replace_first (''<p>'' @ t2 @ ''</p>'') (colored_text ''blue'' t2)
             (replace_first (''<p>'' @ t1 @ ''</p>'') (colored_text ''red'' t1) ?s))"
    unfolding extract_and_color_def fa by (simp add: colors_def Let_def del: findall_numbers.simps)
  then show ?thesis
    unfolding c1 c2 rw by simp
qed

text \<open>
  C4, as the code has it. The input is written out: two annotations
  \<^verbatim>\<open><p>t1</p>\<close> and \<^verbatim>\<open><p>t2</p>\<close>, each followed by whitespace and a bracket
  of digits, dots, commas, semicolons and whitespace, with text before, between and
  after them. The span texts hold no line feed and no \<open><\<close>, the text before and
  between holds no \<open><\<close>, the text after holds no \<open>[\<close> (it may hold further tagged
  spans). Then the pattern matches these two annotations and nothing else, the structured
  list has the two entries, red then blue, and the rewritten string is the input with
  \<^verbatim>\<open><p>t1</p>\<close> replaced by \<^verbatim>\<open><span style="color:red">t1</span>\<close> and
  \<^verbatim>\<open><p>t2</p>\<close> by \<^verbatim>\<open><span style="color:blue">t2</span>\<close>, everything else kept
  as it is, identical tagged spans after them included. More generally, for any input on
  which the pattern matches exactly twice: each of the two rewrites replaces the first
  occurrence of its tagged span in the string as it stands (no occurrence before it) and
  keeps what follows; both occurrences exist. For any input the \<open>k\<close>-th entry has the
  colour \<open>k mod 5\<close> of the palette of five.
\<close>

theorem two_annotations_colored:
  "(CHR ''<'' \<notin> set pre \<and> CHR ''<'' \<notin> set mid \<and> CHR ''['' \<notin> set post
    \<and> CHR ''<'' \<notin> set t1 \<and> CHR 0x0A \<notin> set t1
    \<and> CHR ''<'' \<notin> set t2 \<and> CHR 0x0A \<notin> set t2
    \<and> list_all py_isspace ws1 \<and> list_all py_isspace ws2
    \<and> list_all in_coord_class b1 \<and> list_all in_coord_class b2 \<longrightarrow>
      findall_annotations
        (pre @ ''<p>'' @ t1 @ ''</p>'' @ ws1 @ ''['' @ b1 @ '']''
         @ mid @ ''<p>'' @ t2 @ ''</p>'' @ ws2 @ ''['' @ b2 @ '']'' @ post) =
      [(t1, ''['' @ b1 @ '']''), (t2, ''['' @ b2 @ '']'')]
    \<and> extract_and_color
        (pre @ ''<p>'' @ t1 @ ''</p>'' @ ws1 @ ''['' @ b1 @ '']''
         @ mid @ ''<p>'' @ t2 @ ''</p>'' @ ws2 @ ''['' @ b2 @ '']'' @ post) =
      ([(t1, map float_of_str (findall_numbers (''['' @ b1 @ '']'')), ''red''),
        (t2, map float_of_str (findall_numbers (''['' @ b2 @ '']'')), ''blue'')],
       pre @ ''<span style='' @ [CHR 0x22] @ ''color:red'' @ [CHR 0x22] @ ''>'' @ t1
       @ ''</span>'' @ ws1 @ ''['' @ b1 @ '']''
       @ mid @ ''<span style='' @ [CHR 0x22] @ ''color:blue'' @ [CHR 0x22] @ ''>'' @ t2
       @ ''</span>'' @ ws2 @ ''['' @ b2 @ '']'' @ post))
   \<and> (findall_annotations s = [(u1, l1), (u2, l2)] \<longrightarrow>
       (\<exists>p1 p2 m1 m2.
           find_str s (''<p>'' @ u1 @ ''</p>'') = Some p1
         \<and> (\<forall>q < p1. \<not> prefix (''<p>'' @ u1 @ ''</p>'') (drop q s))
         \<and> m1 = take p1 s
                  @ ''<span style='' @ [CHR 0x22] @ ''color:red'' @ [CHR 0x22] @ ''>'' @ u1
                  @ ''</span>'' @ drop (p1 + length (''<p>'' @ u1 @ ''</p>'')) s
         \<and> find_str m1 (''<p>'' @ u2 @ ''</p>'') = Some p2
         \<and> (\<forall>q < p2. \<not> prefix (''<p>'' @ u2 @ ''</p>'') (drop q m1))
         \<and> m2 = take p2 m1
                  @ ''<span style='' @ [CHR 0x22] @ ''color:blue'' @ [CHR 0x22] @ ''>'' @ u2
                  @ ''</span>'' @ drop (p2 + length (''<p>'' @ u2 @ ''</p>'')) m1
         \<and> extract_and_color s =
             ([(u1, map float_of_str (findall_numbers l1), ''red''),
               (u2, map float_of_str (findall_numbers l2), ''blue'')], m2)))
   \<and> (\<forall>x. \<forall>k < length (fst (extract_and_color x)).
         snd (snd (fst (extract_and_color x) ! k)) = colors ! (k mod 5))
   \<and> colors = [''red'', ''blue'', ''green'', ''purple'', ''orange'']"
proof (intro conjI impI)
  assume h: "CHR ''<'' \<notin> set pre \<and> CHR ''<'' \<notin> set mid \<and> CHR ''['' \<notin> set post
    \<and> CHR ''<'' \<notin> set t1 \<and> CHR 0x0A \<notin> set t1
    \<and> CHR ''<'' \<notin> set t2 \<and> CHR 0x0A \<notin> set t2
    \<and> list_all py_isspace ws1 \<and> list_all py_isspace ws2
    \<and> list_all in_coord_class b1 \<and> list_all in_coord_class b2"
  then show "findall_annotations
        (pre @ ''<p>'' @ t1 @ ''</p>'' @ ws1 @ ''['' @ b1 @ '']''
         @ mid @ ''<p>'' @ t2 @ ''</p>'' @ ws2 @ ''['' @ b2 @ '']'' @ post) =
      [(t1, ''['' @ b1 @ '']''), (t2, ''['' @ b2 @ '']'')]"
    by (elim conjE) (rule two_annotations_found)
  from h show "extract_and_color
        (pre @ ''<p>'' @ t1 @ ''</p>'' @ ws1 @ ''['' @ b1 @ '']''
         @ mid @ ''<p>'' @ t2 @ ''</p>'' @ ws2 @ ''['' @ b2 @ '']'' @ post) =
      ([(t1, map float_of_str (findall_numbers (''['' @ b1 @ '']'')), ''red''),
        (t2, map float_of_str (findall_numbers (''['' @ b2 @ '']'')), ''blue'')],
       pre @ ''<span style='' @ [CHR 0x22] @ ''color:red'' @ [CHR 0x22] @ ''>'' @ t1
       @ ''</span>'' @ ws1 @ ''['' @ b1 @ '']''
       @ mid @ ''<span style='' @ [CHR 0x22] @ ''color:blue'' @ [CHR 0x22] @ ''>'' @ t2
       @ ''</span>'' @ ws2 @ ''['' @ b2 @ '']'' @ post)"
    by (elim conjE) (rule two_annotations_result)
next
  assume "findall_annotations s = [(u1, l1), (u2, l2)]"
  then show "\<exists>p1 p2 m1 m2.
           find_str s (''<p>'' @ u1 @ ''</p>'') = Some p1
         \<and> (\<forall>q < p1. \<not> prefix (''<p>'' @ u1 @ ''</p>'') (drop q s))
         \<and> m1 = take p1 s
                  @ ''<span style='' @ [CHR 0x22] @ ''color:red'' @ [CHR 0x22] @ ''>'' @ u1
                  @ ''</span>'' @ drop (p1 + length (''<p>'' @ u1 @ ''</p>'')) s
         \<and> find_str m1 (''<p>'' @ u2 @ ''</p>'') = Some p2
         \<and> (\<forall>q < p2. \<not> prefix (''<p>'' @ u2 @ ''</p>'') (drop q m1))
         \<and> m2 = take p2 m1
                  @ ''<span style='' @ [CHR 0x22] @ ''color:blue'' @ [CHR 0x22] @ ''>'' @ u2
                  @ ''</span>'' @ drop (p2 + length (''<p>'' @ u2 @ ''</p>'')) m1
         \<and> extract_and_color s =
             ([(u1, map float_of_str (findall_numbers l1), ''red''),
               (u2, map float_of_str (findall_numbers l2), ''blue'')], m2)"
    by (rule two_matches_rewritten)
next
  show "\<forall>x. \<forall>k < length (fst (extract_and_color x)).
         snd (snd (fst (extract_and_color x) ! k)) = colors ! (k mod 5)"
    using extract_and_color_palette by simp
next
  show "colors = [''red'', ''blue'', ''green'', ''purple'', ''orange'']"
    by (rule colors_def)
qed

theorem two_annotations_colored_witness:
  "extract_and_color ''x <p>a</p> [0.1] y <p>a</p>[0.25] <p>a</p>'' =
     ([(''a'', [1 / 10], ''red''), (''a'', [1 / 4], ''blue'')],
      ''x <span style='' @ [CHR 0x22] @ ''color:red'' @ [CHR 0x22] @ ''>a</span> [0.1] y ''
      @ ''<span style='' @ [CHR 0x22] @ ''color:blue'' @ [CHR 0x22] @ ''>a</span>[0.25] <p>a</p>'')
   \<and> findall_annotations ''x <p>a</p> [0.1] y <p>a</p>[0.25] <p>a</p>'' =
     [(''a'', ''[0.1]''), (''a'', ''[0.25]'')]"
proof -
  have n1: "map float_of_str (findall_numbers ''[0.1]'') = [1 / 10]"
    by (simp add: regex_eval float_of_str_def digits_value_def)
  have n2: "map float_of_str (findall_numbers ''[0.25]'') = [1 / 4]"
    by (simp add: regex_eval float_of_str_def digits_value_def)
  have h: "CHR ''<'' \<notin> set ''x '' \<and> CHR ''<'' \<notin> set '' y '' \<and> CHR ''['' \<notin> set '' <p>a</p>''
    \<and> CHR ''<'' \<notin> set ''a'' \<and> CHR 0x0A \<notin> set ''a''
    \<and> CHR ''<'' \<notin> set ''a'' \<and> CHR 0x0A \<notin> set ''a''
    \<and> list_all py_isspace '' '' \<and> list_all py_isspace []
    \<and> list_all in_coord_class ''0.1'' \<and> list_all in_coord_class ''0.25''"
    by (simp add: py_isspace_def in_coord_class_def is_digit_def)
  have "findall_annotations
        (''x '' @ ''<p>'' @ ''a'' @ ''</p>'' @ '' '' @ ''['' @ ''0.1'' @ '']''
         @ '' y '' @ ''<p>'' @ ''a'' @ ''</p>'' @ [] @ ''['' @ ''0.25'' @ '']'' @ '' <p>a</p>'') =
      [(''a'', ''['' @ ''0.1'' @ '']''), (''a'', ''['' @ ''0.25'' @ '']'')]
    \<and> extract_and_color
        (''x '' @ ''<p>'' @ ''a'' @ ''</p>'' @ '' '' @ ''['' @ ''0.1'' @ '']''
         @ '' y '' @ ''<p>'' @ ''a'' @ ''</p>'' @ [] @ ''['' @ ''0.25'' @ '']'' @ '' <p>a</p>'') =
      ([(''a'', map float_of_str (findall_numbers (''['' @ ''0.1'' @ '']'')), ''red''),
        (''a'', map float_of_str (findall_numbers (''['' @ ''0.25'' @ '']'')), ''blue'')],
       ''x '' @ ''<span style='' @ [CHR 0x22] @ ''color:red'' @ [CHR 0x22] @ ''>'' @ ''a''
       @ ''</span>'' @ '' '' @ ''['' @ ''0.1'' @ '']''
       @ '' y '' @ ''<span style='' @ [CHR 0x22] @ ''color:blue'' @ [CHR 0x22] @ ''>'' @ ''a''
       @ ''</span>'' @ [] @ ''['' @ ''0.25'' @ '']'' @ '' <p>a</p>'')"
    using two_annotations_colored [of "''x ''" "'' y ''" "'' <p>a</p>''" "''a''" "''a''"
        "'' ''" "[]" "''0.1''" "''0.25''", THEN conjunct1] h
    by blast
  then show ?thesis
    using n1 n2 by (simp del: findall_numbers.simps findall_annotations.simps)
qed

text \<open>
  A tagged span followed by a bracketed number list is not always a match of the
  pattern. A span text with a line feed is not matched (\<^verbatim>\<open>.\<close> does not match a line
  feed), so of two such annotations only one entry is left. A bracket with a minus sign
  is not matched, and the lazy group runs on into the next annotation: one entry again,
  whose span text spans both.
\<close>

theorem span_with_line_feed_missed:
  "extract_and_color (''<p>a'' @ [CHR 0x0A] @ ''b</p>[0.1] <p>c</p>[0.2]'') =
     ([(''c'', [1 / 5], ''red'')],
      ''<p>a'' @ [CHR 0x0A] @ ''b</p>[0.1] <span style='' @ [CHR 0x22] @ ''color:red''
      @ [CHR 0x22] @ ''>c</span>[0.2]'')
   \<and> length (fst (extract_and_color (''<p>a'' @ [CHR 0x0A] @ ''b</p>[0.1] <p>c</p>[0.2]''))) = 1
   \<and> extract_and_color ''<p>a</p>[-0.1] <p>c</p>[0.2]'' =
     ([(''a</p>[-0.1] <p>c'', [1 / 5], ''red'')],
      ''<span style='' @ [CHR 0x22] @ ''color:red'' @ [CHR 0x22]
      @ ''>a</p>[-0.1] <p>c</span>[0.2]'')"
  by (simp add: extract_and_color_def regex_eval colors_def colored_text_def
      float_of_str_def digits_value_def)

text \<open>
  C5, as the code has it. Every match of the annotation pattern gives one entry, in
  order, whether or not its bracket holds a number: the coordinates are the substrings of
  the form \<^verbatim>\<open>\d+\.\d+\<close> of the bracket text, possibly none. \<^verbatim>\<open>float\<close> is applied
  to strings of that form only, so it does not raise. And every match rewrites the
  string, however many matches there are: at the \<open>k\<close>-th match the tagged span occurs
  in the string as it stands, its first occurrence is replaced by
  \<^verbatim>\<open><span style="color:c">t</span>\<close> with \<open>c\<close> the colour \<open>k mod 5\<close>, and what
  comes before and after that occurrence is kept. The string returned is the one after
  the last match.
\<close>

theorem every_match_recorded:
  "length (fst (extract_and_color s)) = length (findall_annotations s)
   \<and> (\<forall>k < length (findall_annotations s).
        fst (extract_and_color s) ! k =
          (fst (findall_annotations s ! k),
           map float_of_str (findall_numbers (snd (findall_annotations s ! k))),
           colors ! (k mod 5)))
   \<and> list_all is_decimal (findall_numbers l)
   \<and> markdown_after 0 s = s
   \<and> (\<forall>k < length (findall_annotations s).
        \<exists>p. find_str (markdown_after k s)
               (''<p>'' @ fst (findall_annotations s ! k) @ ''</p>'') = Some p
          \<and> (\<forall>q < p. \<not> prefix (''<p>'' @ fst (findall_annotations s ! k) @ ''</p>'')
                               (drop q (markdown_after k s)))
          \<and> markdown_after (Suc k) s =
              take p (markdown_after k s)
              @ ''<span style='' @ [CHR 0x22] @ ''color:'' @ colors ! (k mod 5) @ [CHR 0x22]
              @ ''>'' @ fst (findall_annotations s ! k) @ ''</span>''
              @ drop (p + length (''<p>'' @ fst (findall_annotations s ! k) @ ''</p>''))
                  (markdown_after k s))
   \<and> snd (extract_and_color s) = markdown_after (length (findall_annotations s)) s
   \<and> colors = [''red'', ''blue'', ''green'', ''purple'', ''orange'']"
proof -
  have rw: "\<forall>k < length (findall_annotations s).
        \<exists>p. find_str (markdown_after k s)
               (''<p>'' @ fst (findall_annotations s ! k) @ ''</p>'') = Some p
          \<and> (\<forall>q < p. \<not> prefix (''<p>'' @ fst (findall_annotations s ! k) @ ''</p>'')
                               (drop q (markdown_after k s)))
          \<and> markdown_after (Suc k) s =
              take p (markdown_after k s)
              @ ''<span style='' @ [CHR 0x22] @ ''color:'' @ colors ! (k mod 5) @ [CHR 0x22]
              @ ''>'' @ fst (findall_annotations s ! k) @ ''</span>''
              @ drop (p + length (''<p>'' @ fst (findall_annotations s ! k) @ ''</p>''))
                  (markdown_after k s)"
  proof (intro allI impI)
    fix k
    assume k: "k < length (findall_annotations s)"
    let ?P = "''<p>'' @ fst (findall_annotations s ! k) @ ''</p>''"
    obtain p where p: "find_str (markdown_after k s) ?P = Some p"
      and m: "markdown_after (Suc k) s =
               take p (markdown_after k s)
               @ colored_text (colors ! (k mod 5)) (fst (findall_annotations s ! k))
               @ drop (p + length ?P) (markdown_after k s)"
      using every_match_rewrites [OF k] by blast
    have f: "\<forall>q < p. \<not> prefix ?P (drop q (markdown_after k s))"
      using find_str_Some [OF p] by blast
    have m': "markdown_after (Suc k) s =
              take p (markdown_after k s)
              @ ''<span style='' @ [CHR 0x22] @ ''color:'' @ colors ! (k mod 5) @ [CHR 0x22]
              @ ''>'' @ fst (findall_annotations s ! k) @ ''</span>''
              @ drop (p + length ?P) (markdown_after k s)"
      using m by (simp add: colored_text_def)
    from p f m' show "\<exists>p. find_str (markdown_after k s) ?P = Some p
          \<and> (\<forall>q < p. \<not> prefix ?P (drop q (markdown_after k s)))
          \<and> markdown_after (Suc k) s =
              take p (markdown_after k s)
              @ ''<span style='' @ [CHR 0x22] @ ''color:'' @ colors ! (k mod 5) @ [CHR 0x22]
              @ ''>'' @ fst (findall_annotations s ! k) @ ''</span>''
              @ drop (p + length ?P) (markdown_after k s)"
      by blast
  qed
  have z: "markdown_after 0 s = s"
    by (simp add: markdown_after_def)
  have a: "snd (extract_and_color s) = markdown_after (length (findall_annotations s)) s"
    by (simp add: markdown_after_all)
  from extract_and_color_palette [of s] findall_numbers_decimal [of l] z rw a colors_def
  show ?thesis
    by (intro conjI) (elim conjE, assumption)+
qed

theorem every_match_recorded_witness:
  "findall_annotations ''<p>a</p>[;] <p>b</p>[0.5] <p>a</p>[]'' =
     [(''a'', ''[;]''), (''b'', ''[0.5]''), (''a'', ''[]'')]
   \<and> fst (extract_and_color ''<p>a</p>[;] <p>b</p>[0.5] <p>a</p>[]'') =
       [(''a'', [], ''red''), (''b'', [1 / 2], ''blue''), (''a'', [], ''green'')]
   \<and> snd (extract_and_color ''<p>a</p>[;] <p>b</p>[0.5] <p>a</p>[]'') =
       ''<span style='' @ [CHR 0x22] @ ''color:red'' @ [CHR 0x22] @ ''>a</span>[;] ''
       @ ''<span style='' @ [CHR 0x22] @ ''color:blue'' @ [CHR 0x22] @ ''>b</span>[0.5] ''
       @ ''<span style='' @ [CHR 0x22] @ ''color:green'' @ [CHR 0x22] @ ''>a</span>[]''"
proof -
  let ?s = "''<p>a</p>[;] <p>b</p>[0.5] <p>a</p>[]''"
  have fa: "findall_annotations ?s = [(''a'', ''[;]''), (''b'', ''[0.5]''), (''a'', ''[]'')]"
    by (simp add: regex_eval)
  have "length (fst (extract_and_color ?s)) = 3
    \<and> fst (extract_and_color ?s) ! 0 = (''a'', [], ''red'')
    \<and> fst (extract_and_color ?s) ! Suc 0 = (''b'', [1 / 2], ''blue'')
    \<and> fst (extract_and_color ?s) ! Suc (Suc 0) = (''a'', [], ''green'')"
    using every_match_recorded [of ?s "[]", THEN conjunct1]
      every_match_recorded [of ?s "[]", THEN conjunct2, THEN conjunct1]
    by (simp add: regex_eval float_of_str_def digits_value_def colors_def)
  then have e: "fst (extract_and_color ?s) =
       [(''a'', [], ''red''), (''b'', [1 / 2], ''blue''), (''a'', [], ''green'')]"
    by (auto simp: list_eq_iff_nth_eq less_Suc_eq numeral_3_eq_3)
  have m: "snd (extract_and_color ?s) =
       ''<span style='' @ [CHR 0x22] @ ''color:red'' @ [CHR 0x22] @ ''>a</span>[;] ''
       @ ''<span style='' @ [CHR 0x22] @ ''color:blue'' @ [CHR 0x22] @ ''>b</span>[0.5] ''
       @ ''<span style='' @ [CHR 0x22] @ ''color:green'' @ [CHR 0x22] @ ''>a</span>[]''"
    by (simp add: extract_and_color_def regex_eval colors_def colored_text_def)
  from fa e m show ?thesis
    by (intro conjI)
qed

text \<open>
  An annotation whose bracket holds no number is not skipped: \<^verbatim>\<open><p>a</p>[;]\<close> gives
  an entry with no coordinates and a coloured span. And a bracket with a character that
  the pattern does not allow stops the match there only: the lazy group runs on to the
  next annotation on the same line, so \<^verbatim>\<open><p>a</p>[x] <p>b</p>[0.5]\<close> gives one entry
  whose span text is \<^verbatim>\<open>a</p>[x] <p>b\<close>.
\<close>

theorem malformed_span_not_skipped:
  "extract_and_color ''<p>a</p>[;]'' =
     ([(''a'', [], ''red'')],
      ''<span style='' @ [CHR 0x22] @ ''color:red'' @ [CHR 0x22] @ ''>a</span>[;]'')
   \<and> extract_and_color ''<p>a</p>[x] <p>b</p>[0.5]'' =
     ([(''a</p>[x] <p>b'', [1 / 2], ''red'')],
      ''<span style='' @ [CHR 0x22] @ ''color:red'' @ [CHR 0x22]
      @ ''>a</p>[x] <p>b</span>[0.5]'')"
  by (simp add: extract_and_color_def regex_eval colors_def colored_text_def
      float_of_str_def digits_value_def)

subsection \<open>The ready/stream protocol of a turn\<close>

lemma set_reply_shown:
  "chatbot \<noteq> [] \<Longrightarrow> set_reply chatbot (escape_angle (response_text r)) = Inr (shown chatbot r)"
  by (simp add: set_reply_def shown_def)

lemma shown_not_empty: "shown chatbot r \<noteq> []"
  by (simp add: shown_def)

lemma shown_shown: "shown (shown chatbot a) b = shown chatbot b"
  by (simp add: shown_def)

lemma wait_ready_discards:
  "Ready \<notin> set junk \<Longrightarrow>
   wait_ready (junk @ Ready # rest) = (map Get junk @ [Get Ready], Some rest)"
proof (induction junk)
  case Nil
  show ?case by simp
next
  case (Cons x junk)
  then show ?case by (cases x) simp_all
qed

lemma relay_terminal:
  assumes "chatbot \<noteq> []" and "end_of_content r"
  shows "relay img chatbot (Chunk r # later) =
     (case draw_box_on_image img (fst (extract_and_color (response_text r))) of
        Inl e \<Rightarrow> ([Get (Chunk r)], Fails e, later)
      | Inr boxed_image \<Rightarrow>
          ([Get (Chunk r),
            Yield (shown chatbot r,
                   Some [(snd (extract_and_color (response_text r)), None)],
                   Some boxed_image)],
           Completed, later))"
  using assms
  by (simp add: set_reply_shown split: prod.splits sum.splits)

lemma relay_intermediate:
  assumes "chatbot \<noteq> []" and "\<not> end_of_content r"
  shows "relay img chatbot (Chunk r # q) =
     (case relay img (shown chatbot r) q of
        (ev, fin, q') \<Rightarrow> (Get (Chunk r) # Yield (shown chatbot r, None, None) # ev, fin, q'))"
  using assms by (simp add: set_reply_shown)

lemma relay_terminal_shown:
  assumes "chatbot \<noteq> []" and "end_of_content r"
  shows "relay img (shown chatbot m) (Chunk r # later) = relay img chatbot (Chunk r # later)"
  by (simp only: relay_terminal [OF assms] relay_terminal [OF shown_not_empty assms(2)]
      shown_shown)

lemma relay_chunks:
  "chatbot \<noteq> [] \<Longrightarrow> list_all (\<lambda>m. \<not> end_of_content m) mids \<Longrightarrow> end_of_content r \<Longrightarrow>
   relay img chatbot (map Chunk mids @ Chunk r # later) =
     (case relay img chatbot (Chunk r # later) of
        (ev, fin, q') \<Rightarrow>
          (concat (map (\<lambda>m. [Get (Chunk m), Yield (shown chatbot m, None, None)]) mids) @ ev,
           fin, q'))"
proof (induction mids arbitrary: chatbot)
  case Nil
  show ?case by (simp del: relay.simps split: prod.splits)
next
  case (Cons m mids)
  have ne: "\<not> end_of_content m" and rest: "list_all (\<lambda>m. \<not> end_of_content m) mids"
    using Cons.prems(2) by simp_all
  have ih: "relay img (shown chatbot m) (map Chunk mids @ Chunk r # later) =
     (case relay img chatbot (Chunk r # later) of
        (ev, fin, q') \<Rightarrow>
          (concat (map (\<lambda>x. [Get (Chunk x), Yield (shown chatbot x, None, None)]) mids) @ ev,
           fin, q'))"
    using Cons.IH [OF shown_not_empty rest Cons.prems(3), of chatbot m]
    by (simp only: shown_shown relay_terminal_shown [OF Cons.prems(1) Cons.prems(3)])
  have "relay img chatbot (map Chunk (m # mids) @ Chunk r # later) =
     (case relay img (shown chatbot m) (map Chunk mids @ Chunk r # later) of
        (ev, fin, q') \<Rightarrow> (Get (Chunk m) # Yield (shown chatbot m, None, None) # ev, fin, q'))"
    using relay_intermediate [OF Cons.prems(1) ne] by (simp del: relay.simps)
  then show ?case
    by (simp only: ih) (simp del: relay.simps split: prod.splits)
qed

text \<open>
  A turn whose response queue holds stray items without a \<^verbatim>\<open>Ready\<close>, then a
  \<^verbatim>\<open>Ready\<close>, then records without the end-of-content flag, then a record with it,
  then anything. The stray items are received and dropped; after the \<^verbatim>\<open>Ready\<close> the
  request is put on every worker's queue; every record before the last is received and
  yielded, in order; the last record is received, and nothing after it: the rest of the
  queue is left as it is. The last record is yielded when its post-processing returns;
  when that raises, the generator ends with the exception and without the yield.
\<close>

lemma stream_protocol:
  assumes "chatbot \<noteq> []" and "Ready \<notin> set junk"
      and "list_all (\<lambda>m. \<not> end_of_content m) mids" and "end_of_content r"
      and "request = (img_path, chatbot_for_model chatbot, max_gen_len, gen_t, top_p, img_transform)"
  shows "stream_model_output image_open request_queues
           (junk @ Ready # map Chunk mids @ Chunk r # later)
           img_path chatbot max_gen_len gen_t top_p img_transform =
         (map Get junk @ [Get Ready]
          @ map (\<lambda>i. Put i request) [0 ..< length request_queues]
          @ concat (map (\<lambda>m. [Get (Chunk m), Yield (shown chatbot m, None, None)]) mids)
          @ Get (Chunk r)
            # (case post_process (image_open img_path) r of
                 Inl e \<Rightarrow> []
               | Inr boxed_image \<Rightarrow>
                   [Yield (shown chatbot r,
                           Some [(snd (extract_and_color (response_text r)), None)],
                           Some boxed_image)]),
          (case post_process (image_open img_path) r of
             Inl e \<Rightarrow> Fails e | Inr boxed_image \<Rightarrow> Completed),
          later,
          map (\<lambda>queue. queue @ [request]) request_queues)"
proof -
  have w: "wait_ready (junk @ Ready # map Chunk mids @ Chunk r # later) =
             (map Get junk @ [Get Ready], Some (map Chunk mids @ Chunk r # later))"
    using assms(2) by (rule wait_ready_discards)
  have t: "relay (image_open img_path) chatbot (Chunk r # later) =
     (Get (Chunk r)
            # (case post_process (image_open img_path) r of
                 Inl e \<Rightarrow> []
               | Inr boxed_image \<Rightarrow>
                   [Yield (shown chatbot r,
                           Some [(snd (extract_and_color (response_text r)), None)],
                           Some boxed_image)]),
      (case post_process (image_open img_path) r of
             Inl e \<Rightarrow> Fails e | Inr boxed_image \<Rightarrow> Completed),
      later)"
    by (simp only: relay_terminal [OF assms(1) assms(4)] post_process_def)
       (simp split: sum.splits)
  have c: "relay (image_open img_path) chatbot (map Chunk mids @ Chunk r # later) =
     (concat (map (\<lambda>m. [Get (Chunk m), Yield (shown chatbot m, None, None)]) mids)
      @ Get (Chunk r)
            # (case post_process (image_open img_path) r of
                 Inl e \<Rightarrow> []
               | Inr boxed_image \<Rightarrow>
                   [Yield (shown chatbot r,
                           Some [(snd (extract_and_color (response_text r)), None)],
                           Some boxed_image)]),
      (case post_process (image_open img_path) r of
             Inl e \<Rightarrow> Fails e | Inr boxed_image \<Rightarrow> Completed),
      later)"
    by (simp only: relay_chunks [OF assms(1) assms(3) assms(4)] t) simp
  show ?thesis
    by (simp add: stream_model_output_def w c fan_out_def assms(5) [symmetric]
        del: relay.simps wait_ready.simps)
qed

text \<open>
  C1: the code at a turn whose last record carries an annotation with a single
  coordinate. The \<^verbatim>\<open>Ready\<close> is received, the request is put on the worker's queue,
  the record is received; \<^verbatim>\<open>draw_box_on_image\<close> then raises \<^verbatim>\<open>ValueError\<close> on
  unpacking four coordinates, and the received record is not yielded.
\<close>

theorem terminal_chunk_not_relayed:
  "stream_model_output (\<lambda>p. Inr (4, 2)) [[]]
     [Ready, Chunk \<lparr>response_text = ''<p>cat</p>[0.5]'', end_of_content = True\<rparr>]
     (Some ''x.png'') [(Some ''q'', None)] 10 0 1 ''padded_resize'' =
   ([Get Ready,
     Put 0 (Some ''x.png'', [(Some ''q'', None)], 10, 0, 1, ''padded_resize''),
     Get (Chunk \<lparr>response_text = ''<p>cat</p>[0.5]'', end_of_content = True\<rparr>)],
    Fails ValueError, [],
    [[(Some ''x.png'', [(Some ''q'', None)], 10, 0, 1, ''padded_resize'')]])
   \<and> extract_and_color ''<p>cat</p>[0.5]'' =
       ([(''cat'', [1 / 2], ''red'')], colored_text ''red'' ''cat'' @ ''[0.5]'')
   \<and> draw_box_on_image (Inr (4, 2)) [(''cat'', [1 / 2], ''red'')] = Inl ValueError"
proof -
  have e: "extract_and_color ''<p>cat</p>[0.5]'' =
       ([(''cat'', [1 / 2], ''red'')], colored_text ''red'' ''cat'' @ ''[0.5]'')"
    by (simp add: extract_and_color_def regex_eval colors_def colored_text_def
        float_of_str_def digits_value_def)
  have d: "draw_box_on_image (Inr (4, 2)) [(''cat'', [1 / 2], ''red'')] = Inl ValueError"
    by (simp add: draw_box_on_image_def)
  have u: "chatbot_for_model [(Some ''q'', None)] = [(Some ''q'', None)]"
    by (simp add: chatbot_for_model_def unescape_angle_def)
  have "stream_model_output (\<lambda>p. Inr (4, 2)) [[]]
     [Ready, Chunk \<lparr>response_text = ''<p>cat</p>[0.5]'', end_of_content = True\<rparr>]
     (Some ''x.png'') [(Some ''q'', None)] 10 0 1 ''padded_resize'' =
   ([Get Ready,
     Put 0 (Some ''x.png'', [(Some ''q'', None)], 10, 0, 1, ''padded_resize''),
     Get (Chunk \<lparr>response_text = ''<p>cat</p>[0.5]'', end_of_content = True\<rparr>)],
    Fails ValueError, [],
    [[(Some ''x.png'', [(Some ''q'', None)], 10, 0, 1, ''padded_resize'')]])"
    by (simp add: stream_model_output_def fan_out_def set_reply_def e d u)
  then show ?thesis
    using e d by simp
qed

end
